theory Spec2Isabelle
  imports Complex_Main "HOL-Library.Sublist" "HOL-Library.Log_Nat"
begin

section \<open>Numbers\<close>

text \<open>
  The program computes with JavaScript numbers, which are IEEE 754 doubles. A finite
  double is modelled as the rational number it denotes, and an operation of the frame
  processor as the exact operation on rationals followed by the rounding of binary64:
  to the nearest double, ties to the even significand. \<open>float_exp x\<close> is the exponent
  \<open>e\<close> with \<open>2 powi e \<le> x < 2 powi (e + 1)\<close> of a positive \<open>x\<close>; below \<open>2 powi (- 1022)\<close>
  the doubles are subnormal and their spacing stays \<open>2 powi (- 1074)\<close>.
\<close>

definition float_exp :: "rat \<Rightarrow> int" where
  "float_exp x =
     (let k = bitlen (fst (quotient_of x)) - bitlen (snd (quotient_of x))
      in if 2 powi k \<le> x then k else k - 1)"

definition round_half_even :: "rat \<Rightarrow> int" where
  "round_half_even m =
     (let f = \<lfloor>m\<rfloor>; r = m - of_int f
      in if r < 1 / 2 then f else if 1 / 2 < r then f + 1 else if even f then f else f + 1)"

text \<open>The exponent of the spacing of the doubles around \<open>x\<close>.\<close>

definition ulp_exp :: "rat \<Rightarrow> int" where
  "ulp_exp x = max (float_exp \<bar>x\<bar>) (- 1022) - 52"

definition round64 :: "rat \<Rightarrow> rat" where
  "round64 x =
     (if x = 0 then 0
      else of_int (round_half_even (x / 2 powi ulp_exp x)) * 2 powi ulp_exp x)"

text \<open>A rational that is a finite double.\<close>

definition is_double :: "rat \<Rightarrow> bool" where
  "is_double x = (round64 x = x \<and> \<bar>x\<bar> < 2 powi 1024)"

datatype jsnum = JsNum rat | JsInfinity | JsNegInfinity

text \<open>
  \<^verbatim>\<open>a / b\<close> for a positive dividend \<open>a\<close>: a zero divisor gives \<^verbatim>\<open>Infinity\<close> (the divisor
  of the program is a difference of two recorded times, which is never the negative
  zero), and a quotient beyond the largest double rounds to an infinity.
\<close>

definition js_div :: "rat \<Rightarrow> rat \<Rightarrow> jsnum" where
  "js_div a b =
     (if b = 0 then JsInfinity
      else let q = round64 (a / b)
           in if 2 powi 1024 \<le> q then JsInfinity
              else if q \<le> - (2 powi 1024) then JsNegInfinity
              else JsNum q)"

text \<open>
  \<^verbatim>\<open>a - b\<close> for clock readings and elapsed times (a difference of two doubles of the
  same sign does not leave the range of the doubles).
\<close>

definition js_sub :: "rat \<Rightarrow> rat \<Rightarrow> rat" where
  "js_sub a b = round64 (a - b)"

section \<open>CameraContext: findBestFormat\<close>

record camera_format =
  videoWidth :: rat
  videoHeight :: rat
  maxFps :: rat

text \<open>A device whose \<^verbatim>\<open>formats\<close> is undefined has \<open>formats = None\<close>.\<close>

record camera_device =
  formats :: "camera_format list option"

text \<open>The predicate of \<^verbatim>\<open>.filter\<close>: a number is truthy when it is not zero.\<close>

definition format_filter :: "rat \<Rightarrow> camera_format \<Rightarrow> bool" where
  "format_filter targetFps format =
     (videoWidth format \<noteq> 0 \<and> videoHeight format \<noteq> 0 \<and> targetFps \<le> maxFps format)"

text \<open>The comparator of \<^verbatim>\<open>.sort\<close>: more pixels first, then the higher frame rate.\<close>

definition format_compare :: "camera_format \<Rightarrow> camera_format \<Rightarrow> rat" where
  "format_compare a b =
     (let aPixels = videoWidth a * videoHeight a;
          bPixels = videoWidth b * videoHeight b
      in if aPixels \<noteq> bPixels then bPixels - aPixels else maxFps b - maxFps a)"

text \<open>
  \<^verbatim>\<open>Array.prototype.sort\<close> is stable; with a comparator that is a total preorder, as
  this one is, its result is the one of a stable insertion sort.
\<close>

fun insert_by :: "('a \<Rightarrow> 'a \<Rightarrow> rat) \<Rightarrow> 'a \<Rightarrow> 'a list \<Rightarrow> 'a list" where
  "insert_by cmp x [] = [x]"
| "insert_by cmp x (y # ys) = (if cmp x y \<le> 0 then x # y # ys else y # insert_by cmp x ys)"

definition sort_by :: "('a \<Rightarrow> 'a \<Rightarrow> rat) \<Rightarrow> 'a list \<Rightarrow> 'a list" where
  "sort_by cmp xs = foldr (insert_by cmp) xs []"

definition ideal1080p240 :: "camera_format \<Rightarrow> bool" where
  "ideal1080p240 f = (videoWidth f = 1920 \<and> videoHeight f = 1080 \<and> 240 \<le> maxFps f)"

definition findBestFormat :: "camera_device \<Rightarrow> rat \<Rightarrow> camera_format option" where
  "findBestFormat device targetFps =
     (case formats device of
        None \<Rightarrow> None
      | Some fs \<Rightarrow>
          (let sortedFormats = sort_by format_compare (filter (format_filter targetFps) fs)
           in case find ideal1080p240 sortedFormats of
                Some f \<Rightarrow> Some f
              | None \<Rightarrow> (case sortedFormats of [] \<Rightarrow> None | f # _ \<Rightarrow> Some f)))"

section \<open>ConfigContext\<close>

record start_sequence_config =
  goToStartDuration :: rat
  inPositionMin :: rat
  inPositionMax :: rat
  setMin :: rat
  setMax :: rat
  audioEnabled :: bool

definition defaultStartSequenceConfig :: start_sequence_config where
  "defaultStartSequenceConfig =
     \<lparr>goToStartDuration = 5, inPositionMin = 1, inPositionMax = 3,
      setMin = 1, setMax = 3, audioEnabled = True\<rparr>"

section \<open>TimingMarkers\<close>

record timing_markers =
  startTime :: "rat option"
  finishTime :: "rat option"

text \<open>
  Modelled from the spec: the class \<^verbatim>\<open>TimingMarkers\<close> (services/TimingMarkers.ts) is
  imported by the components and is not among the source files. The setters follow the
  Timing Ledger of the specification: each field is assigned once, and a second call on
  a field that is set changes nothing.
\<close>

definition setStartTime :: "rat \<Rightarrow> timing_markers \<Rightarrow> timing_markers" where
  "setStartTime t m = (case startTime m of None \<Rightarrow> m\<lparr>startTime := Some t\<rparr> | Some _ \<Rightarrow> m)"

text \<open>
  Modelled from the spec: \<^verbatim>\<open>setFinishTime\<close> of the same missing class, single-assignment
  like \<^verbatim>\<open>setStartTime\<close>.
\<close>

definition setFinishTime :: "rat \<Rightarrow> timing_markers \<Rightarrow> timing_markers" where
  "setFinishTime t m = (case finishTime m of None \<Rightarrow> m\<lparr>finishTime := Some t\<rparr> | Some _ \<Rightarrow> m)"

section \<open>The application state\<close>

datatype recording_state = Idle | Recording | Finished

text \<open>\<^verbatim>\<open>currentView\<close>: the camera view with the panels, or the settings.\<close>

datatype view = CameraV | SettingsV

datatype sequence_phase =
  Ph_countdown | Ph_go_to_start | Ph_in_position | Ph_set | Ph_start | Ph_completed

datatype audio_cue = Cue_go_to_start | Cue_in_position | Cue_set | Cue_start_beep

text \<open>
  What the components do to the world outside them, in the order they do it: a read of
  \<^verbatim>\<open>performance.now()\<close>, a command to the camera, a command to the audio manager, a
  write to the timing markers. The camera is the one of react-native-vision-camera and
  the class \<^verbatim>\<open>AudioManager\<close> is not among the source files: of both, only the calls the
  components make are recorded.
\<close>

datatype effect =
  PerfNow rat
| CamStartRecording
| CamStopRecording
| AudioPlay audio_cue
| MarkStart rat
| MarkFinish rat

text \<open>
  The body of \<^verbatim>\<open>startSequence\<close> as the list of its statements. \<open>Delay\<close>, \<open>PlayAudio\<close>
  are awaited: the function suspends there. \<open>SetTimeout\<close> schedules the callback made of
  the statements after it.
\<close>

datatype instr =
  SetCountdown nat
| AnimateScale
| Delay rat
| SetPhase sequence_phase
| SetPhaseText string
| PlayAudio audio_cue
| ReadStartTime
| SetTimeout rat
| OnComplete

text \<open>
  One invocation of \<^verbatim>\<open>startSequence\<close>: the statements still to run once the pending
  await resolves, the component's \<^verbatim>\<open>phase\<close>, and the local \<^verbatim>\<open>startTime\<close>.
\<close>

record overlay_task =
  todo :: "instr list"
  phase :: sequence_phase
  startTimeVar :: "rat option"

record app =
  currentView :: view
  isSequenceActive :: bool
  recordingState :: recording_state
  timingMarkers :: timing_markers
  config :: start_sequence_config
  cameraRef :: bool
  cameraDevice :: bool
  frameCount :: nat
  actualFps :: jsnum
  frameTimestamps :: "rat list"
  recordingStartTime :: "rat option"
  tasks :: "overlay_task list"
  log :: "effect list"

text \<open>
  The state after the first render: \<open>cr\<close> and \<open>cd\<close> say whether \<^verbatim>\<open>camera.camera.current\<close>
  and \<^verbatim>\<open>camera.device\<close> are there.
\<close>

definition initial :: "start_sequence_config \<Rightarrow> bool \<Rightarrow> bool \<Rightarrow> app" where
  "initial cfg cr cd =
     \<lparr>currentView = CameraV, isSequenceActive = False, recordingState = Idle,
      timingMarkers = \<lparr>startTime = None, finishTime = None\<rparr>,
      config = cfg, cameraRef = cr, cameraDevice = cd,
      frameCount = 0, actualFps = JsNum 0, frameTimestamps = [],
      recordingStartTime = None, tasks = [], log = []\<rparr>"

section \<open>RaceTimerApp: the handlers\<close>

definition handleStartSequence :: "app \<Rightarrow> app" where
  "handleStartSequence s =
     (if isSequenceActive s \<or> recordingState s = Recording then s
      else s\<lparr>isSequenceActive := True, recordingState := Recording\<rparr>)"

definition handleStopRecording :: "rat \<Rightarrow> app \<Rightarrow> app" where
  "handleStopRecording now s =
     (if recordingState s \<noteq> Recording then s
      else s\<lparr>recordingState := Finished, isSequenceActive := False,
             timingMarkers := setFinishTime now (timingMarkers s),
             log := log s @ [PerfNow now, MarkFinish now]\<rparr>)"

definition handleSequenceComplete :: "rat \<Rightarrow> app \<Rightarrow> app" where
  "handleSequenceComplete t s =
     s\<lparr>timingMarkers := setStartTime t (timingMarkers s), log := log s @ [MarkStart t]\<rparr>"

definition handleSequenceCancelled :: "app \<Rightarrow> app" where
  "handleSequenceCancelled s = s\<lparr>isSequenceActive := False, recordingState := Idle\<rparr>"

section \<open>ControlPanel\<close>

definition canStart :: "app \<Rightarrow> bool" where
  "canStart s = (recordingState s = Idle \<and> \<not> isSequenceActive s)"

definition canStop :: "app \<Rightarrow> bool" where
  "canStop s = (recordingState s = Recording)"

section \<open>CameraView\<close>

definition isRecording :: "app \<Rightarrow> bool" where
  "isRecording s = (recordingState s = Recording)"

definition startRecording :: "app \<Rightarrow> app" where
  "startRecording s =
     (if \<not> cameraRef s \<or> \<not> cameraDevice s then s
      else s\<lparr>log := log s @ [CamStartRecording]\<rparr>)"

definition stopRecording :: "app \<Rightarrow> app" where
  "stopRecording s =
     (if \<not> cameraRef s then s else s\<lparr>log := log s @ [CamStopRecording]\<rparr>)"

text \<open>\<^verbatim>\<open>recordingStartTime.current\<close> as a condition: null and 0 are falsy.\<close>

definition truthy :: "rat option \<Rightarrow> bool" where
  "truthy v = (case v of None \<Rightarrow> False | Some t \<Rightarrow> t \<noteq> 0)"

text \<open>The effect on \<^verbatim>\<open>[isRecording]\<close>, run with the clock at \<open>now\<close>.\<close>

definition recordingEffect :: "rat \<Rightarrow> app \<Rightarrow> app" where
  "recordingEffect now s =
     (if isRecording s then
        startRecording
          (s\<lparr>recordingStartTime := Some now, frameTimestamps := [], frameCount := 0,
             actualFps := JsNum 0, log := log s @ [PerfNow now]\<rparr>)
      else if truthy (recordingStartTime s) then
        (stopRecording s)\<lparr>recordingStartTime := None\<rparr>
      else s)"

text \<open>\<^verbatim>\<open>xs.slice(-n)\<close>\<close>

definition slice_last :: "nat \<Rightarrow> 'a list \<Rightarrow> 'a list" where
  "slice_last n xs = drop (length xs - n) xs"

text \<open>The frame rate computed from \<^verbatim>\<open>recent30\<close>, a list of 30 elements.\<close>

definition measuredFps :: "rat list \<Rightarrow> jsnum" where
  "measuredFps recent30 = js_div 29000 (js_sub (recent30 ! 29) (recent30 ! 0))"

definition frameProcessor :: "rat \<Rightarrow> app \<Rightarrow> app" where
  "frameProcessor now s =
     (case recordingStartTime s of
        None \<Rightarrow> s
      | Some t0 \<Rightarrow>
          if isRecording s \<and> t0 \<noteq> 0 then
            (let elapsedMs = js_sub now t0;
                 ts = frameTimestamps s @ [elapsedMs]
             in s\<lparr>frameTimestamps := ts,
                  frameCount := frameCount s + 1,
                  actualFps :=
                    (if 30 \<le> length ts then measuredFps (slice_last 30 ts) else actualFps s),
                  log := log s @ [PerfNow now]\<rparr>)
          else s)"

text \<open>
  CameraView is rendered in the camera view only. When it is mounted again its state is
  fresh (no frames, no frame rate, no start of the recording) and its effect runs once,
  whatever \<^verbatim>\<open>isRecording\<close> is. While the settings are shown the fields of the state
  keep the values of the instance that was unmounted: its list is still held by the
  callbacks it gave to the camera, and no component reads it.
\<close>

definition mountCameraView :: "rat \<Rightarrow> app \<Rightarrow> app" where
  "mountCameraView now s =
     recordingEffect now
       (s\<lparr>frameCount := 0, actualFps := JsNum 0, frameTimestamps := [],
          recordingStartTime := None\<rparr>)"

section \<open>StartSequenceOverlay\<close>

definition randomDelay :: "rat \<Rightarrow> rat \<Rightarrow> rat \<Rightarrow> rat" where
  \<comment> \<open>\<open>r\<close> is the value \<^verbatim>\<open>Math.random()\<close> returns\<close>
  "randomDelay mn mx r = (r * (mx - mn) + mn) * 1000"

text \<open>\<^verbatim>\<open>for (let i = n; i >= 1; i--)\<close>\<close>

fun countdown_loop :: "nat \<Rightarrow> instr list" where
  "countdown_loop 0 = []"
| "countdown_loop (Suc i) = [SetCountdown (Suc i), AnimateScale, Delay 1000] @ countdown_loop i"

definition cue_if :: "start_sequence_config \<Rightarrow> audio_cue \<Rightarrow> instr list" where
  "cue_if cfg c = (if audioEnabled cfg then [PlayAudio c] else [])"

text \<open>\<open>r1\<close> and \<open>r2\<close> are the two values \<^verbatim>\<open>Math.random()\<close> returns to this invocation.\<close>

definition startSequence :: "start_sequence_config \<Rightarrow> rat \<Rightarrow> rat \<Rightarrow> instr list" where
  "startSequence cfg r1 r2 =
     countdown_loop 3 @
     [SetPhase Ph_go_to_start, SetPhaseText ''Go to the start''] @
     cue_if cfg Cue_go_to_start @
     [Delay (goToStartDuration cfg * 1000)] @
     [SetPhase Ph_in_position, SetPhaseText ''In position''] @
     cue_if cfg Cue_in_position @
     [Delay (randomDelay (inPositionMin cfg) (inPositionMax cfg) r1)] @
     [SetPhase Ph_set, SetPhaseText ''Set''] @
     cue_if cfg Cue_set @
     [Delay (randomDelay (setMin cfg) (setMax cfg) r2)] @
     [SetPhase Ph_start, SetPhaseText ''GO!'', ReadStartTime] @
     cue_if cfg Cue_start_beep @
     [AnimateScale, SetTimeout 500, SetPhase Ph_completed, OnComplete]"

text \<open>
  Running an invocation from its next statement to the next point where it suspends;
  \<open>now\<close> is what \<^verbatim>\<open>performance.now()\<close> returns meanwhile. A command to the audio
  manager is issued before the function suspends on it.
\<close>

fun exec :: "rat \<Rightarrow> instr list \<Rightarrow> overlay_task \<Rightarrow> app \<Rightarrow> overlay_task \<times> app" where
  "exec now [] tk s = (tk\<lparr>todo := []\<rparr>, s)"
| "exec now (Delay ms # rest) tk s = (tk\<lparr>todo := rest\<rparr>, s)"
| "exec now (PlayAudio c # rest) tk s = (tk\<lparr>todo := rest\<rparr>, s\<lparr>log := log s @ [AudioPlay c]\<rparr>)"
| "exec now (SetTimeout ms # rest) tk s = (tk\<lparr>todo := rest\<rparr>, s)"
| "exec now (SetPhase p # rest) tk s = exec now rest (tk\<lparr>phase := p\<rparr>) s"
| "exec now (ReadStartTime # rest) tk s =
     exec now rest (tk\<lparr>startTimeVar := Some now\<rparr>) (s\<lparr>log := log s @ [PerfNow now]\<rparr>)"
| "exec now (OnComplete # rest) tk s =
     exec now rest tk
       (case startTimeVar tk of None \<Rightarrow> s | Some t \<Rightarrow> handleSequenceComplete t s)"
| "exec now (SetCountdown n # rest) tk s = exec now rest tk s"
| "exec now (AnimateScale # rest) tk s = exec now rest tk s"
| "exec now (SetPhaseText txt # rest) tk s = exec now rest tk s"

text \<open>Mounting the overlay runs \<^verbatim>\<open>startSequence\<close> to its first await.\<close>

definition mountOverlay :: "rat \<Rightarrow> rat \<Rightarrow> rat \<Rightarrow> app \<Rightarrow> app" where
  "mountOverlay now r1 r2 s =
     (case exec now (startSequence (config s) r1 r2)
             \<lparr>todo = [], phase = Ph_countdown, startTimeVar = None\<rparr> s of
        (tk, s') \<Rightarrow> s'\<lparr>tasks := tasks s' @ [tk]\<rparr>)"

section \<open>Events\<close>

text \<open>
  An event is a press of a button, a frame handed to the frame processor, or the
  resolution of the pending await (or timer) of the \<open>k\<close>-th invocation of
  \<^verbatim>\<open>startSequence\<close>. Each carries the clock at that moment. A button acts only while it
  is rendered and enabled: Start, Stop and Settings belong to the ControlPanel of the
  camera view (Start and Stop can be disabled, Settings never is), Back to the
  SettingsPanel, Cancel to the overlay, which is rendered in both views while
  \<^verbatim>\<open>isSequenceActive\<close>. A frame reaches the frame processor only while CameraView is
  mounted. After a handler, the effects of the render run: the one of a mounted
  CameraView when \<^verbatim>\<open>isRecording\<close> changed, then the one of a newly mounted overlay.
  Nothing stops an invocation of \<^verbatim>\<open>startSequence\<close> when its overlay is unmounted.
\<close>

datatype event =
  PressStart rat rat rat
| PressStop rat
| PressCancel rat
| Frame rat
| Resume nat rat
| OpenSettings rat
| BackToCamera rat

definition cameraViewEffect :: "app \<Rightarrow> rat \<Rightarrow> app \<Rightarrow> app" where
  "cameraViewEffect old now s =
     (if currentView s = CameraV \<and> isRecording s \<noteq> isRecording old
      then recordingEffect now s else s)"

definition overlayEffect :: "app \<Rightarrow> rat \<Rightarrow> rat \<Rightarrow> rat \<Rightarrow> app \<Rightarrow> app" where
  "overlayEffect old now r1 r2 s =
     (if isSequenceActive s \<and> \<not> isSequenceActive old then mountOverlay now r1 r2 s else s)"

definition resume :: "nat \<Rightarrow> rat \<Rightarrow> app \<Rightarrow> app" where
  "resume k now s =
     (if k < length (tasks s) then
        (case exec now (todo (tasks s ! k)) (tasks s ! k) s of
           (tk, s') \<Rightarrow> s'\<lparr>tasks := (tasks s')[k := tk]\<rparr>)
      else s)"

fun step :: "event \<Rightarrow> app \<Rightarrow> app" where
  "step (PressStart now r1 r2) s =
     (if currentView s = CameraV \<and> canStart s then
        overlayEffect s now r1 r2 (cameraViewEffect s now (handleStartSequence s))
      else s)"
| "step (PressStop now) s =
     (if currentView s = CameraV \<and> canStop s
      then cameraViewEffect s now (handleStopRecording now s) else s)"
| "step (PressCancel now) s =
     (if isSequenceActive s then cameraViewEffect s now (handleSequenceCancelled s) else s)"
| "step (Frame now) s = (if currentView s = CameraV then frameProcessor now s else s)"
| "step (Resume k now) s = resume k now s"
| "step (OpenSettings now) s =
     (if currentView s = CameraV then s\<lparr>currentView := SettingsV\<rparr> else s)"
| "step (BackToCamera now) s =
     (if currentView s = SettingsV then mountCameraView now (s\<lparr>currentView := CameraV\<rparr>)
      else s)"

fun run :: "event list \<Rightarrow> app \<Rightarrow> app" where
  "run [] s = s"
| "run (e # es) s = run es (step e s)"

section \<open>Notions used to state the properties\<close>

text \<open>The clock reading an event carries.\<close>

fun clock_of :: "event \<Rightarrow> rat" where
  "clock_of (PressStart now r1 r2) = now"
| "clock_of (PressStop now) = now"
| "clock_of (PressCancel now) = now"
| "clock_of (Frame now) = now"
| "clock_of (Resume k now) = now"
| "clock_of (OpenSettings now) = now"
| "clock_of (BackToCamera now) = now"

fun is_start :: "event \<Rightarrow> bool" where
  "is_start (PressStart now r1 r2) = True"
| "is_start e = False"


fun is_back :: "event \<Rightarrow> bool" where
  "is_back (BackToCamera now) = True"
| "is_back e = False"


text \<open>The band [1, 240] of frame rates.\<close>

definition in_clamp_band :: "jsnum \<Rightarrow> bool" where
  "in_clamp_band v =
     (case v of JsNum x \<Rightarrow> 1 \<le> x \<and> x \<le> 240 | JsInfinity \<Rightarrow> False | JsNegInfinity \<Rightarrow> False)"

text \<open>
  The milliseconds of \<^verbatim>\<open>delay\<close> a sequence awaits before it enters the phase
  \<^verbatim>\<open>'start'\<close>.
\<close>

fun wait_before_start :: "instr list \<Rightarrow> rat" where
  "wait_before_start [] = 0"
| "wait_before_start (Delay ms # rest) = ms + wait_before_start rest"
| "wait_before_start (SetPhase p # rest) = (if p = Ph_start then 0 else wait_before_start rest)"
| "wait_before_start (i # rest) = wait_before_start rest"

text \<open>
  In every state the application reaches, an active sequence means that the state is
  \<^verbatim>\<open>'recording'\<close>: the handlers set the two together.
\<close>

definition active_implies_recording :: "app \<Rightarrow> bool" where
  "active_implies_recording s = (isSequenceActive s \<longrightarrow> recordingState s = Recording)"

text \<open>The finish time is set only by the handler that moves to \<^verbatim>\<open>'finished'\<close>.\<close>

definition finish_implies_finished :: "app \<Rightarrow> bool" where
  "finish_implies_finished s =
     (finishTime (timingMarkers s) \<noteq> None \<longrightarrow> recordingState s = Finished)"

text \<open>
  With the clock at \<open>c\<close>: the recording started between 0 and \<open>c\<close>, and every recorded
  elapsed time lies between 0 and \<open>c\<close>.
\<close>

definition elapsed_ok :: "rat \<Rightarrow> app \<Rightarrow> bool" where
  "elapsed_ok c s =
     (0 \<le> c \<and>
      (case recordingStartTime s of None \<Rightarrow> True | Some t0 \<Rightarrow> 0 \<le> t0 \<and> t0 \<le> c) \<and>
      list_all (\<lambda>x. 0 \<le> x \<and> x \<le> c) (frameTimestamps s))"

text \<open>No recorded elapsed time is beyond the finish time, once that is set.\<close>

definition finish_bounds :: "app \<Rightarrow> bool" where
  "finish_bounds s =
     (case finishTime (timingMarkers s) of
        None \<Rightarrow> True
      | Some f \<Rightarrow> list_all (\<lambda>x. x \<le> f) (frameTimestamps s))"



section \<open>Rounding to a double is monotone\<close>

lemma float_exp_bounds:
  assumes "0 < x"
  shows "2 powi float_exp x \<le> x" and "x < 2 powi (float_exp x + 1)"
proof -
  obtain p q where pq: "quotient_of x = (p, q)" by (cases "quotient_of x")
  then have q: "0 < q" and x: "x = of_int p / of_int q"
    by (auto dest: quotient_of_denom_pos quotient_of_div)
  with assms have p: "0 < p" by (simp add: zero_less_divide_iff)
  define k where "k = bitlen p - bitlen q"
  have p1: "1 \<le> bitlen p" using p by (auto simp: bitlen_alt_def)
  have q1: "1 \<le> bitlen q" using q by (auto simp: bitlen_alt_def)
  have "(of_int (2 ^ nat (bitlen p - 1)) :: rat) \<le> of_int p"
    "(of_int p :: rat) < of_int (2 ^ nat (bitlen p))"
    using bitlen_bounds [OF p] by (simp_all only: of_int_le_iff of_int_less_iff)
  then have P: "(2::rat) powi (bitlen p - 1) \<le> of_int p" "(of_int p :: rat) < 2 powi (bitlen p)"
    using p1 by (simp_all add: power_int_def)
  have "(of_int (2 ^ nat (bitlen q - 1)) :: rat) \<le> of_int q"
    "(of_int q :: rat) < of_int (2 ^ nat (bitlen q))"
    using bitlen_bounds [OF q] by (simp_all only: of_int_le_iff of_int_less_iff)
  then have Q: "(2::rat) powi (bitlen q - 1) \<le> of_int q" "(of_int q :: rat) < 2 powi (bitlen q)"
    using q1 by (simp_all add: power_int_def)
  have "(2::rat) powi (bitlen p - 1) / 2 powi (bitlen q) < of_int p / of_int q"
    using P(1) Q(2) q by (intro frac_less2) simp_all
  then have lo: "2 powi (k - 1) < x"
    by (simp add: x k_def power_int_diff)
  have "of_int p / of_int q < (2::rat) powi (bitlen p) / 2 powi (bitlen q - 1)"
    using P(2) Q(1) p by (intro frac_less) simp_all
  moreover have "k + 1 = bitlen p - (bitlen q - 1)" by (simp add: k_def)
  ultimately have hi: "x < 2 powi (k + 1)"
    by (simp only: x power_int_diff) (simp add: power_int_diff)
  have fe: "float_exp x = (if 2 powi k \<le> x then k else k - 1)"
    by (simp add: float_exp_def pq k_def)
  show "2 powi float_exp x \<le> x" using lo by (auto simp: fe)
  show "x < 2 powi (float_exp x + 1)" using hi by (auto simp: fe)
qed

lemma power_int_2_mono: "a \<le> b \<Longrightarrow> (2::rat) powi a \<le> 2 powi b"
  by (rule power_int_increasing) simp_all

lemma float_exp_unique:
  assumes "2 powi e \<le> x" "x < 2 powi (e + 1)"
  shows "float_exp x = e"
proof -
  have pos: "0 < x" using assms(1) by (rule less_le_trans [rotated]) simp
  note b = float_exp_bounds [OF pos]
  have "\<not> float_exp x < e"
  proof
    assume "float_exp x < e"
    then have "(2::rat) powi (float_exp x + 1) \<le> 2 powi e" by (intro power_int_2_mono) simp
    with b(2) assms(1) show False by simp
  qed
  moreover have "\<not> e < float_exp x"
  proof
    assume "e < float_exp x"
    then have "(2::rat) powi (e + 1) \<le> 2 powi float_exp x" by (intro power_int_2_mono) simp
    with b(1) assms(2) show False by simp
  qed
  ultimately show ?thesis by simp
qed

lemma float_exp_mono:
  assumes "0 < x" "x \<le> y"
  shows "float_exp x \<le> float_exp y"
proof (rule ccontr)
  assume "\<not> float_exp x \<le> float_exp y"
  then have "float_exp y + 1 \<le> float_exp x" by simp
  then have "(2::rat) powi (float_exp y + 1) \<le> 2 powi float_exp x" by (rule power_int_2_mono)
  moreover have "0 < y" using assms by simp
  ultimately show False
    using float_exp_bounds(1) [OF assms(1)] float_exp_bounds(2) [OF \<open>0 < y\<close>] assms(2) by simp
qed

lemma round_half_even_of_int [simp]: "round_half_even (of_int n) = n"
  by (simp add: round_half_even_def)

lemma round_half_even_bounds:
  "\<lfloor>m\<rfloor> \<le> round_half_even m" "round_half_even m \<le> \<lfloor>m\<rfloor> + 1"
  by (simp_all add: round_half_even_def Let_def)

lemma round_half_even_mono:
  assumes "x \<le> y"
  shows "round_half_even x \<le> round_half_even y"
proof (cases "\<lfloor>x\<rfloor> = \<lfloor>y\<rfloor>")
  case True
  with assms have "x - of_int \<lfloor>x\<rfloor> \<le> y - of_int \<lfloor>y\<rfloor>" by simp
  with True show ?thesis
    by (auto simp: round_half_even_def Let_def)
next
  case False
  with assms have "\<lfloor>x\<rfloor> + 1 \<le> \<lfloor>y\<rfloor>"
    using floor_mono [OF assms] by simp
  with round_half_even_bounds(2) [of x] round_half_even_bounds(1) [of y]
  show ?thesis by simp
qed

lemma round_half_even_minus: "round_half_even (- m) = - round_half_even m"
proof (cases "m \<in> \<int>")
  case True
  then obtain n where "m = of_int n" by (auto elim: Ints_cases)
  then show ?thesis
    by (simp only: of_int_minus [symmetric] round_half_even_of_int)
next
  case False
  then have "m \<noteq> of_int \<lfloor>m\<rfloor>" by (metis Ints_of_int)
  then have fl: "\<lfloor>- m\<rfloor> = - \<lfloor>m\<rfloor> - 1"
    by (simp add: floor_minus ceiling_altdef)
  show ?thesis
    unfolding round_half_even_def Let_def fl
    by (auto simp: algebra_simps)
qed

lemma ulp_exp_minus [simp]: "ulp_exp (- x) = ulp_exp x"
  by (simp add: ulp_exp_def)

lemma round64_minus: "round64 (- x) = - round64 x"
  by (simp add: round64_def round_half_even_minus)

lemma round64_0 [simp]: "round64 0 = 0"
  by (simp add: round64_def)

lemma pow2_pos [simp]: "0 < (2::rat) powi k"
  by (simp add: power_int_def)

lemma round64_nonneg: "0 \<le> x \<Longrightarrow> 0 \<le> round64 x"
proof -
  assume "0 \<le> x"
  then have "0 \<le> x / 2 powi ulp_exp x" by simp
  then have "round_half_even 0 \<le> round_half_even (x / 2 powi ulp_exp x)"
    by (rule round_half_even_mono)
  then show ?thesis
    using round_half_even_of_int [of 0] by (simp add: round64_def del: round_half_even_of_int)
qed

text \<open>Within one binade the rounded value stays between the powers of two.\<close>

lemma pow2_shift:
  "(of_int (2 ^ 53) :: rat) * 2 powi u = 2 powi (u + 53)"
  "(of_int (2 ^ 52) :: rat) * 2 powi u = 2 powi (u + 52)"
  "(2::rat) powi (u + 53) / 2 powi u = of_int (2 ^ 53)"
  "(2::rat) powi (u + 52) / 2 powi u = of_int (2 ^ 52)"
proof -
  have e53: "(of_int (2 ^ 53) :: rat) = 2 powi 53" and e52: "(of_int (2 ^ 52) :: rat) = 2 powi 52"
    by (simp_all add: power_int_def)
  have a53: "(2::rat) powi (u + 53) = 2 powi u * 2 powi 53"
    by (rule power_int_add) simp
  have a52: "(2::rat) powi (u + 52) = 2 powi u * 2 powi 52"
    by (rule power_int_add) simp
  have nz: "(2::rat) powi u \<noteq> 0" by (simp add: power_int_def)
  show "(of_int (2 ^ 53) :: rat) * 2 powi u = 2 powi (u + 53)"
    by (simp only: e53 a53 mult.commute)
  show "(of_int (2 ^ 52) :: rat) * 2 powi u = 2 powi (u + 52)"
    by (simp only: e52 a52 mult.commute)
  show "(2::rat) powi (u + 53) / 2 powi u = of_int (2 ^ 53)"
    unfolding a53 e53 using nz by simp
  show "(2::rat) powi (u + 52) / 2 powi u = of_int (2 ^ 52)"
    unfolding a52 e52 using nz by simp
qed

lemma round64_binade:
  assumes "0 < x"
  shows "2 powi (ulp_exp x + 52) \<le> round64 x \<or> float_exp x < - 1022"
    and "round64 x \<le> 2 powi (ulp_exp x + 53)"
proof -
  let ?u = "(2::rat) powi ulp_exp x"
  have x0: "x \<noteq> 0" "\<bar>x\<bar> = x" using assms by simp_all
  have r64: "round64 x = of_int (round_half_even (x / ?u)) * ?u"
    using x0 by (simp add: round64_def)
  have le: "float_exp x \<le> ulp_exp x + 52" by (simp add: ulp_exp_def x0)
  have "x < 2 powi (float_exp x + 1)" using assms by (rule float_exp_bounds)
  also have "\<dots> \<le> 2 powi (ulp_exp x + 53)" using le by (intro power_int_2_mono) simp
  finally have "x / ?u \<le> 2 powi (ulp_exp x + 53) / ?u" by (simp add: divide_right_mono)
  then have "x / ?u \<le> of_int (2 ^ 53)" by (simp only: pow2_shift(3))
  then have "round_half_even (x / ?u) \<le> round_half_even (of_int (2 ^ 53))"
    by (rule round_half_even_mono)
  then have "(of_int (round_half_even (x / ?u)) :: rat) \<le> of_int (2 ^ 53)"
    by (simp only: round_half_even_of_int of_int_le_iff)
  then have "round64 x \<le> of_int (2 ^ 53) * ?u"
    unfolding r64 by (rule mult_right_mono) simp
  then show "round64 x \<le> 2 powi (ulp_exp x + 53)" by (simp only: pow2_shift(1))
  show "2 powi (ulp_exp x + 52) \<le> round64 x \<or> float_exp x < - 1022"
  proof (cases "float_exp x < - 1022")
    case True
    then show ?thesis ..
  next
    case False
    then have eq: "ulp_exp x + 52 = float_exp x" by (simp add: ulp_exp_def x0)
    have "2 powi (ulp_exp x + 52) \<le> x"
      unfolding eq using assms by (rule float_exp_bounds)
    then have "2 powi (ulp_exp x + 52) / ?u \<le> x / ?u" by (simp add: divide_right_mono)
    then have "of_int (2 ^ 52) \<le> x / ?u" by (simp only: pow2_shift(4))
    then have "round_half_even (of_int (2 ^ 52)) \<le> round_half_even (x / ?u)"
      by (rule round_half_even_mono)
    then have "(of_int (2 ^ 52) :: rat) \<le> of_int (round_half_even (x / ?u))"
      by (simp only: round_half_even_of_int of_int_le_iff)
    then have "of_int (2 ^ 52) * ?u \<le> round64 x"
      unfolding r64 by (rule mult_right_mono) simp
    then have "2 powi (ulp_exp x + 52) \<le> round64 x" by (simp only: pow2_shift(2))
    then show ?thesis ..
  qed
qed

lemma round64_mono_pos:
  assumes "0 < x" "x \<le> y"
  shows "round64 x \<le> round64 y"
proof -
  have y: "0 < y" using assms by simp
  have fe: "float_exp x \<le> float_exp y" using assms by (rule float_exp_mono)
  then have ue: "ulp_exp x \<le> ulp_exp y" using assms y by (simp add: ulp_exp_def)
  show ?thesis
  proof (cases "ulp_exp x = ulp_exp y")
    case True
    have "x / 2 powi ulp_exp y \<le> y / 2 powi ulp_exp y"
      using assms(2) by (simp add: divide_right_mono)
    then have "round_half_even (x / 2 powi ulp_exp y) \<le> round_half_even (y / 2 powi ulp_exp y)"
      by (rule round_half_even_mono)
    then have "(of_int (round_half_even (x / 2 powi ulp_exp y)) :: rat) * 2 powi ulp_exp y \<le>
        of_int (round_half_even (y / 2 powi ulp_exp y)) * 2 powi ulp_exp y"
      by (intro mult_right_mono) simp_all
    then show ?thesis
      using assms y by (simp add: round64_def True)
  next
    case False
    with ue have lt: "ulp_exp x + 53 \<le> ulp_exp y + 52" by simp
    from False ue have "\<not> float_exp y < - 1022"
      using y assms by (auto simp: ulp_exp_def)
    with round64_binade(1) [OF y] have "2 powi (ulp_exp y + 52) \<le> round64 y" by simp
    moreover have "round64 x \<le> 2 powi (ulp_exp x + 53)"
      using assms(1) by (rule round64_binade)
    moreover have "(2::rat) powi (ulp_exp x + 53) \<le> 2 powi (ulp_exp y + 52)"
      using lt by (rule power_int_2_mono)
    ultimately show ?thesis by simp
  qed
qed

lemma round64_mono:
  assumes "x \<le> y"
  shows "round64 x \<le> round64 y"
proof -
  consider "0 < x" | "x \<le> 0" "0 \<le> y" | "y < 0" by linarith
  then show ?thesis
  proof cases
    case 1
    then show ?thesis using assms by (rule round64_mono_pos)
  next
    case 2
    then have "round64 x \<le> 0" "0 \<le> round64 y"
      using round64_nonneg [of "- x"] round64_nonneg [of y] by (simp_all add: round64_minus)
    then show ?thesis by simp
  next
    case 3
    then have "0 < - y" "- y \<le> - x" using assms by simp_all
    then have "round64 (- y) \<le> round64 (- x)" by (rule round64_mono_pos)
    then show ?thesis by (simp add: round64_minus)
  qed
qed

lemma round64_exact:
  assumes "x / 2 powi ulp_exp x \<in> \<int>"
  shows "round64 x = x"
proof (cases "x = 0")
  case True
  then show ?thesis by simp
next
  case False
  from assms obtain n where n: "x / 2 powi ulp_exp x = of_int n" by (auto elim: Ints_cases)
  have "round64 x = of_int n * 2 powi ulp_exp x"
    using False by (simp add: round64_def n)
  also have "\<dots> = x"
    unfolding n [symmetric] by (simp add: power_int_def)
  finally show ?thesis .
qed

lemma round64_of_int:
  assumes "\<bar>n\<bar> < 2 ^ 53"
  shows "round64 (of_int n) = of_int n"
proof -
  have pos: "round64 (of_int m) = of_int m" if m: "0 < m" "m < 2 ^ 53" for m :: int
  proof (rule round64_exact)
    let ?x = "of_int m :: rat"
    have x: "0 < ?x" "\<bar>?x\<bar> = ?x" using m by simp_all
    have "(of_int m :: rat) < of_int (2 ^ 53)" using m(2) by (simp only: of_int_less_iff)
    then have "?x < 2 powi 53" by (simp add: power_int_def)
    moreover have "2 powi float_exp ?x \<le> ?x" using x(1) by (rule float_exp_bounds)
    ultimately have "(2::rat) powi float_exp ?x < 2 powi 53" by simp
    then have "float_exp ?x < 53"
      using power_int_2_mono [of 53 "float_exp ?x"] by (cases "float_exp ?x < 53") simp_all
    then have u: "ulp_exp ?x \<le> 0" by (simp add: ulp_exp_def x)
    then have "?x / 2 powi ulp_exp ?x = of_int (m * 2 ^ nat (- ulp_exp ?x))"
      by (simp add: power_int_def field_simps)
    then show "?x / 2 powi ulp_exp ?x \<in> \<int>" by (simp only: Ints_of_int)
  qed
  consider "n = 0" | "0 < n" | "n < 0" by linarith
  then show ?thesis
  proof cases
    case 1
    then show ?thesis by simp
  next
    case 2
    with assms show ?thesis by (intro pos) simp_all
  next
    case 3
    with assms have "round64 (of_int (- n)) = of_int (- n)" by (intro pos) simp_all
    then show ?thesis by (simp add: round64_minus)
  qed
qed

lemma round64_numeral [simp]:
  "numeral k < (9007199254740992::int) \<Longrightarrow> round64 (numeral k) = numeral k"
  using round64_of_int [of "numeral k"] by simp

lemma round64_1 [simp]: "round64 1 = 1"
  using round64_of_int [of 1] by simp

lemma round64_half: "round64 (1 / 2) = 1 / 2"
proof (rule round64_exact)
  have "float_exp (1 / 2) = - 1"
    by (rule float_exp_unique) (simp_all add: power_int_def)
  then have "ulp_exp (1 / 2) = - 53" by (simp add: ulp_exp_def)
  then have "(1 / 2 :: rat) / 2 powi ulp_exp (1 / 2) = of_int (2 ^ 52)"
    by (simp add: power_int_def field_simps)
  then show "(1 / 2 :: rat) / 2 powi ulp_exp (1 / 2) \<in> \<int>" by (simp only: Ints_of_int)
qed

section \<open>findBestFormat returns a format that passed the filter\<close>

lemma set_insert_by: "set (insert_by cmp x ys) = insert x (set ys)"
  by (induction ys) auto

lemma set_sort_by: "set (sort_by cmp xs) = set xs"
  by (induction xs) (simp_all add: sort_by_def set_insert_by)

lemma find_Some_in_set: "find P xs = Some f \<Longrightarrow> f \<in> set xs"
  by (induction xs) (auto split: if_splits)

text \<open>
  C10. For every camera device and target fps: a format that \<^verbatim>\<open>findBestFormat\<close>
  returns is one of the device's formats, has nonzero \<^verbatim>\<open>videoWidth\<close> and
  \<^verbatim>\<open>videoHeight\<close>, and a \<^verbatim>\<open>maxFps\<close> of at least the target fps; the result is
  undefined exactly when the device has no list of formats or no format of the list
  satisfies these conditions.
\<close>

theorem findBestFormat_sound:
  "(\<forall>f. findBestFormat device targetFps = Some f \<longrightarrow>
        (\<exists>fs. formats device = Some fs \<and> f \<in> set fs) \<and>
        videoWidth f \<noteq> 0 \<and> videoHeight f \<noteq> 0 \<and> targetFps \<le> maxFps f) \<and>
   (findBestFormat device targetFps = None \<longleftrightarrow>
      (formats device = None \<or>
       (\<exists>fs. formats device = Some fs \<and>
          (\<forall>f\<in>set fs. \<not> (videoWidth f \<noteq> 0 \<and> videoHeight f \<noteq> 0 \<and> targetFps \<le> maxFps f)))))"
proof (cases "formats device")
  case None
  then show ?thesis by (simp add: findBestFormat_def)
next
  case (Some fs)
  define sortedFormats
    where "sortedFormats = sort_by format_compare (filter (format_filter targetFps) fs)"
  have mem: "set sortedFormats = {f \<in> set fs. format_filter targetFps f}"
    by (simp add: sortedFormats_def set_sort_by)
  have res: "findBestFormat device targetFps =
      (case find ideal1080p240 sortedFormats of Some f \<Rightarrow> Some f
       | None \<Rightarrow> (case sortedFormats of [] \<Rightarrow> None | f # _ \<Rightarrow> Some f))"
    unfolding sortedFormats_def by (simp add: findBestFormat_def Some Let_def)
  have some: "f \<in> set sortedFormats" if "findBestFormat device targetFps = Some f" for f
    using that unfolding res
    by (auto split: option.splits list.splits dest: find_Some_in_set)
  have none: "findBestFormat device targetFps = None \<longleftrightarrow> sortedFormats = []"
    unfolding res
    by (auto split: option.splits list.splits dest: find_Some_in_set)
  have empty: "sortedFormats = [] \<longleftrightarrow> (\<forall>f\<in>set fs. \<not> format_filter targetFps f)"
    using mem by (metis (mono_tags, lifting) Collect_empty_eq set_empty)
  show ?thesis
    using some none empty mem Some by (auto simp: format_filter_def)
qed

theorem findBestFormat_witness:
  "findBestFormat
     \<lparr>formats = Some [\<lparr>videoWidth = 1280, videoHeight = 720, maxFps = 240\<rparr>,
                      \<lparr>videoWidth = 1920, videoHeight = 1080, maxFps = 120\<rparr>,
                      \<lparr>videoWidth = 0, videoHeight = 1080, maxFps = 240\<rparr>]\<rparr> 120 =
     Some \<lparr>videoWidth = 1920, videoHeight = 1080, maxFps = 120\<rparr> \<and>
   findBestFormat
     \<lparr>formats = Some [\<lparr>videoWidth = 1280, videoHeight = 720, maxFps = 240\<rparr>,
                      \<lparr>videoWidth = 0, videoHeight = 1080, maxFps = 960\<rparr>]\<rparr> 480 = None \<and>
   findBestFormat \<lparr>formats = None\<rparr> 120 = None"
  using findBestFormat_sound
    [of "\<lparr>formats = Some [\<lparr>videoWidth = 1280, videoHeight = 720, maxFps = 240\<rparr>,
                      \<lparr>videoWidth = 1920, videoHeight = 1080, maxFps = 120\<rparr>,
                      \<lparr>videoWidth = 0, videoHeight = 1080, maxFps = 240\<rparr>]\<rparr>" 120]
  by (simp add: findBestFormat_def sort_by_def format_filter_def format_compare_def
      ideal1080p240_def)

section \<open>What the parts of a step leave unchanged\<close>

lemma exec_frame:
  "currentView (snd (exec now prog tk s)) = currentView s \<and>
   isSequenceActive (snd (exec now prog tk s)) = isSequenceActive s \<and>
   recordingState (snd (exec now prog tk s)) = recordingState s \<and>
   config (snd (exec now prog tk s)) = config s \<and>
   cameraRef (snd (exec now prog tk s)) = cameraRef s \<and>
   cameraDevice (snd (exec now prog tk s)) = cameraDevice s \<and>
   frameCount (snd (exec now prog tk s)) = frameCount s \<and>
   actualFps (snd (exec now prog tk s)) = actualFps s \<and>
   frameTimestamps (snd (exec now prog tk s)) = frameTimestamps s \<and>
   recordingStartTime (snd (exec now prog tk s)) = recordingStartTime s \<and>
   tasks (snd (exec now prog tk s)) = tasks s"
  by (induction now prog tk s rule: exec.induct)
     (simp_all add: handleSequenceComplete_def split: option.splits)

lemma resume_frame:
  "currentView (resume k now s) = currentView s \<and>
   isSequenceActive (resume k now s) = isSequenceActive s \<and>
   recordingState (resume k now s) = recordingState s \<and>
   config (resume k now s) = config s \<and>
   cameraRef (resume k now s) = cameraRef s \<and>
   cameraDevice (resume k now s) = cameraDevice s \<and>
   frameCount (resume k now s) = frameCount s \<and>
   actualFps (resume k now s) = actualFps s \<and>
   frameTimestamps (resume k now s) = frameTimestamps s \<and>
   recordingStartTime (resume k now s) = recordingStartTime s \<and>
   length (tasks (resume k now s)) = length (tasks s)"
  using exec_frame [of now "todo (tasks s ! k)" "tasks s ! k" s]
  by (auto simp: resume_def split: prod.splits)

lemma mountOverlay_frame:
  "currentView (mountOverlay now r1 r2 s) = currentView s \<and>
   isSequenceActive (mountOverlay now r1 r2 s) = isSequenceActive s \<and>
   recordingState (mountOverlay now r1 r2 s) = recordingState s \<and>
   config (mountOverlay now r1 r2 s) = config s \<and>
   cameraRef (mountOverlay now r1 r2 s) = cameraRef s \<and>
   cameraDevice (mountOverlay now r1 r2 s) = cameraDevice s \<and>
   frameCount (mountOverlay now r1 r2 s) = frameCount s \<and>
   actualFps (mountOverlay now r1 r2 s) = actualFps s \<and>
   frameTimestamps (mountOverlay now r1 r2 s) = frameTimestamps s \<and>
   recordingStartTime (mountOverlay now r1 r2 s) = recordingStartTime s \<and>
   length (tasks (mountOverlay now r1 r2 s)) = Suc (length (tasks s))"
  using exec_frame [of now "startSequence (config s) r1 r2"
      "\<lparr>todo = [], phase = Ph_countdown, startTimeVar = None\<rparr>" s]
  by (auto simp: mountOverlay_def split: prod.splits)

lemma frameProcessor_frame:
  "currentView (frameProcessor now s) = currentView s \<and>
   isSequenceActive (frameProcessor now s) = isSequenceActive s \<and>
   recordingState (frameProcessor now s) = recordingState s \<and>
   timingMarkers (frameProcessor now s) = timingMarkers s \<and>
   recordingStartTime (frameProcessor now s) = recordingStartTime s \<and>
   tasks (frameProcessor now s) = tasks s"
  by (simp add: frameProcessor_def Let_def split: option.splits)

lemma recordingEffect_frame:
  "currentView (recordingEffect now s) = currentView s \<and>
   isSequenceActive (recordingEffect now s) = isSequenceActive s \<and>
   recordingState (recordingEffect now s) = recordingState s \<and>
   timingMarkers (recordingEffect now s) = timingMarkers s \<and>
   tasks (recordingEffect now s) = tasks s"
  by (simp add: recordingEffect_def startRecording_def stopRecording_def isRecording_def)

lemma cameraViewEffect_frame:
  "currentView (cameraViewEffect old now s) = currentView s \<and>
   isSequenceActive (cameraViewEffect old now s) = isSequenceActive s \<and>
   recordingState (cameraViewEffect old now s) = recordingState s \<and>
   timingMarkers (cameraViewEffect old now s) = timingMarkers s \<and>
   tasks (cameraViewEffect old now s) = tasks s"
  by (simp add: cameraViewEffect_def recordingEffect_frame)

lemma mountCameraView_frame:
  "currentView (mountCameraView now s) = currentView s \<and>
   isSequenceActive (mountCameraView now s) = isSequenceActive s \<and>
   recordingState (mountCameraView now s) = recordingState s \<and>
   timingMarkers (mountCameraView now s) = timingMarkers s \<and>
   tasks (mountCameraView now s) = tasks s"
  by (simp add: mountCameraView_def recordingEffect_frame)

lemma run_append: "run (xs @ ys) s = run ys (run xs s)"
  by (induction xs arbitrary: s) simp_all

text \<open>The equations that evaluate a run on concrete events.\<close>

lemmas run_defs = initial_def defaultStartSequenceConfig_def canStart_def canStop_def
  handleStartSequence_def handleStopRecording_def handleSequenceCancelled_def
  handleSequenceComplete_def setStartTime_def setFinishTime_def
  cameraViewEffect_def overlayEffect_def isRecording_def recordingEffect_def truthy_def
  startRecording_def stopRecording_def mountOverlay_def startSequence_def cue_if_def
  numeral_3_eq_3 resume_def randomDelay_def frameProcessor_def slice_last_def
  measuredFps_def js_div_def js_sub_def mountCameraView_def Let_def

section \<open>The state \<^verbatim>\<open>'finished'\<close> is final\<close>

lemma step_active_implies_recording:
  "active_implies_recording s \<Longrightarrow> active_implies_recording (step e s)"
  by (cases e)
     (auto simp: active_implies_recording_def canStart_def canStop_def overlayEffect_def
        mountOverlay_frame cameraViewEffect_frame handleStartSequence_def
        handleStopRecording_def handleSequenceCancelled_def frameProcessor_frame resume_frame
        mountCameraView_frame)

lemma run_active_implies_recording:
  "active_implies_recording s \<Longrightarrow> active_implies_recording (run evs s)"
  by (induction evs arbitrary: s) (simp_all add: step_active_implies_recording)

lemma step_finished:
  "active_implies_recording s \<Longrightarrow> recordingState s = Finished \<Longrightarrow>
   recordingState (step e s) = Finished"
  by (cases e)
     (auto simp: active_implies_recording_def canStart_def canStop_def frameProcessor_frame
        resume_frame mountCameraView_frame)

lemma run_finished:
  "active_implies_recording s \<Longrightarrow> recordingState s = Finished \<Longrightarrow>
   recordingState (run evs s) = Finished"
  by (induction evs arbitrary: s) (simp_all add: step_finished step_active_implies_recording)

text \<open>
  C9. Once \<^verbatim>\<open>recordingState\<close> is \<^verbatim>\<open>'finished'\<close> in a state the application has reached,
  it is \<^verbatim>\<open>'finished'\<close> after every further sequence of events: it never returns to
  \<^verbatim>\<open>'idle'\<close> or \<^verbatim>\<open>'recording'\<close>, the Start control stays disabled (\<open>canStart\<close> is
  false), and so do Stop and the overlay with its Cancel button.
\<close>

theorem finished_is_final:
  "recordingState (run evs (initial cfg cr cd)) = Finished \<Longrightarrow>
   recordingState (run (evs @ evs') (initial cfg cr cd)) = Finished \<and>
   \<not> canStart (run (evs @ evs') (initial cfg cr cd)) \<and>
   \<not> canStop (run (evs @ evs') (initial cfg cr cd)) \<and>
   \<not> isSequenceActive (run (evs @ evs') (initial cfg cr cd))"
proof -
  assume fin: "recordingState (run evs (initial cfg cr cd)) = Finished"
  have "active_implies_recording (initial cfg cr cd)"
    by (simp add: active_implies_recording_def initial_def)
  then have inv: "active_implies_recording (run evs (initial cfg cr cd))"
    by (rule run_active_implies_recording)
  have 1: "recordingState (run (evs @ evs') (initial cfg cr cd)) = Finished"
    unfolding run_append using inv fin by (rule run_finished)
  have "active_implies_recording (run (evs @ evs') (initial cfg cr cd))"
    unfolding run_append using inv by (rule run_active_implies_recording)
  with 1 show ?thesis
    by (auto simp: canStart_def canStop_def active_implies_recording_def)
qed

theorem finished_is_final_witness:
  "recordingState
     (run [PressStart 1000 (1/2) (1/4), Frame 1010, PressStop 2000]
        (initial defaultStartSequenceConfig True True)) = Finished \<and>
   recordingState
     (run ([PressStart 1000 (1/2) (1/4), Frame 1010, PressStop 2000] @
           [PressStart 3000 (1/2) (1/4), PressCancel 3100, Resume 0 3200, PressStop 3300,
            OpenSettings 3400, BackToCamera 3500, PressStart 3600 (1/2) (1/4)])
        (initial defaultStartSequenceConfig True True)) = Finished"
  using finished_is_final
    [of "[PressStart 1000 (1/2) (1/4), Frame 1010, PressStop 2000]"
        defaultStartSequenceConfig True True
        "[PressStart 3000 (1/2) (1/4), PressCancel 3100, Resume 0 3200, PressStop 3300,
          OpenSettings 3400, BackToCamera 3500, PressStart 3600 (1/2) (1/4)]"]
  by (simp add: run_defs)

section \<open>The frame timestamps while the state is not \<^verbatim>\<open>'recording'\<close>\<close>

lemma frameProcessor_not_recording: "recordingState s \<noteq> Recording \<Longrightarrow> frameProcessor now s = s"
  by (simp add: frameProcessor_def isRecording_def split: option.splits)

lemma frameProcessor_recording:
  "recordingState s = Recording \<Longrightarrow> recordingStartTime s = Some t0 \<Longrightarrow> t0 \<noteq> 0 \<Longrightarrow>
   frameTimestamps (frameProcessor now s) = frameTimestamps s @ [js_sub now t0]"
  by (simp add: frameProcessor_def isRecording_def Let_def)

lemma mountCameraView_fresh:
  "frameTimestamps (mountCameraView now s) = [] \<and>
   recordingStartTime (mountCameraView now s) =
     (if recordingState s = Recording then Some now else None)"
  by (simp add: mountCameraView_def recordingEffect_def isRecording_def startRecording_def
      truthy_def)

lemma step_start_fresh:
  assumes "currentView s = CameraV" "canStart s"
  shows "recordingState (step (PressStart now r1 r2) s) = Recording \<and>
         frameTimestamps (step (PressStart now r1 r2) s) = [] \<and>
         recordingStartTime (step (PressStart now r1 r2) s) = Some now"
  using assms
  by (simp add: canStart_def overlayEffect_def mountOverlay_frame cameraViewEffect_def
      recordingEffect_def isRecording_def startRecording_def handleStartSequence_def)

lemma step_no_start_pristine:
  assumes "\<not> is_start e" "recordingState s = Idle" "\<not> isSequenceActive s"
    "frameTimestamps s = []"
  shows "recordingState (step e s) = Idle \<and> \<not> isSequenceActive (step e s) \<and>
         frameTimestamps (step e s) = []"
  using assms
  by (cases e)
     (simp_all add: canStop_def frameProcessor_not_recording resume_frame
        mountCameraView_frame mountCameraView_fresh)

lemma run_no_start_pristine:
  "\<not> list_ex is_start evs \<Longrightarrow> recordingState s = Idle \<Longrightarrow> \<not> isSequenceActive s \<Longrightarrow>
   frameTimestamps s = [] \<Longrightarrow> frameTimestamps (run evs s) = []"
proof (induction evs arbitrary: s)
  case Nil
  then show ?case by simp
next
  case (Cons e evs)
  from Cons.prems have e: "\<not> is_start e" and rest: "\<not> list_ex is_start evs" by simp_all
  from step_no_start_pristine [OF e Cons.prems(2,3,4)]
  have "recordingState (step e s) = Idle" "\<not> isSequenceActive (step e s)"
    "frameTimestamps (step e s) = []" by simp_all
  with Cons.IH [OF rest, of "step e s"] show ?case by simp
qed

text \<open>
  Every step that ends in a state other than \<^verbatim>\<open>'recording'\<close>, the stop and the cancel
  that end a recording among them, keeps the list, unless it mounts CameraView again.
\<close>

lemma step_keeps_frames:
  assumes "recordingState (step e s) \<noteq> Recording" "\<not> is_back e"
  shows "frameTimestamps (step e s) = frameTimestamps s"
proof (cases e)
  case (PressStart now r1 r2)
  with assms(1) step_start_fresh [of s now r1 r2] show ?thesis
    by (cases "currentView s = CameraV \<and> canStart s") auto
next
  case (PressStop now)
  then show ?thesis
    by (simp add: cameraViewEffect_def recordingEffect_def isRecording_def stopRecording_def
        handleStopRecording_def canStop_def)
next
  case (PressCancel now)
  then show ?thesis
    by (simp add: cameraViewEffect_def recordingEffect_def isRecording_def stopRecording_def
        handleSequenceCancelled_def)
next
  case (Frame now)
  with assms(1) show ?thesis
    by (cases "currentView s = CameraV")
       (simp_all add: frameProcessor_frame frameProcessor_not_recording)
next
  case (Resume k now)
  then show ?thesis by (simp add: resume_frame)
next
  case (OpenSettings now)
  then show ?thesis by simp
next
  case (BackToCamera now)
  with assms(2) show ?thesis by simp
qed

text \<open>
  C7, as the code has it. The list \<^verbatim>\<open>frameTimestamps\<close> has length 0 as long as no start
  request was made. It is emptied by an accepted start request, which makes the state
  \<^verbatim>\<open>'recording'\<close>, and when CameraView is mounted again on the return from the
  settings. Every other event that leaves the application in a state other than
  \<^verbatim>\<open>'recording'\<close> keeps the list as it is, the stop and the cancel that end a recording
  included: afterwards the list still holds the frames of that recording.
\<close>

theorem frameTimestamps_outside_recording:
  "(\<not> list_ex is_start evs \<longrightarrow> length (frameTimestamps (run evs (initial cfg cr cd))) = 0) \<and>
   (recordingState (step e s) \<noteq> Recording \<and> \<not> is_back e \<longrightarrow>
      frameTimestamps (step e s) = frameTimestamps s) \<and>
   (currentView s = CameraV \<and> canStart s \<longrightarrow>
      recordingState (step (PressStart now r1 r2) s) = Recording \<and>
      length (frameTimestamps (step (PressStart now r1 r2) s)) = 0) \<and>
   (currentView s = SettingsV \<longrightarrow>
      length (frameTimestamps (step (BackToCamera now) s)) = 0)"
proof -
  have "frameTimestamps (run evs (initial cfg cr cd)) = []"
    if "\<not> list_ex is_start evs"
    using that by (rule run_no_start_pristine) (simp_all add: initial_def)
  then have "\<not> list_ex is_start evs \<longrightarrow> length (frameTimestamps (run evs (initial cfg cr cd))) = 0"
    by simp
  then show ?thesis
    using step_keeps_frames [of e s] step_start_fresh [of s now r1 r2]
    by (simp add: mountCameraView_fresh)
qed

theorem frameTimestamps_outside_recording_witness:
  "\<not> list_ex is_start [Frame 500, PressStop 600, OpenSettings 650, BackToCamera 680,
      Resume 0 700] \<and>
   length (frameTimestamps (run [Frame 500, PressStop 600, OpenSettings 650, BackToCamera 680,
      Resume 0 700]
      (initial defaultStartSequenceConfig True True))) = 0 \<and>
   recordingState (run [PressStart 1000 (1/2) (1/4), Frame 1010, Frame 1020]
      (initial defaultStartSequenceConfig True True)) = Recording \<and>
   recordingState (step (PressCancel 1500)
      (run [PressStart 1000 (1/2) (1/4), Frame 1010, Frame 1020]
         (initial defaultStartSequenceConfig True True))) = Idle \<and>
   frameTimestamps (step (PressCancel 1500)
      (run [PressStart 1000 (1/2) (1/4), Frame 1010, Frame 1020]
         (initial defaultStartSequenceConfig True True))) = [10, 20]"
  using frameTimestamps_outside_recording
    [of "[Frame 500, PressStop 600, OpenSettings 650, BackToCamera 680, Resume 0 700]"
        defaultStartSequenceConfig True True "PressCancel 1500"
        "run [PressStart 1000 (1/2) (1/4), Frame 1010, Frame 1020]
           (initial defaultStartSequenceConfig True True)"]
  by (simp add: run_defs)

text \<open>
  C7 as stated fails: after a start request, two frames and a stop request the state is
  \<^verbatim>\<open>'finished'\<close> and the list holds the two frames.
\<close>

theorem frames_kept_when_not_recording:
  "recordingState (run [PressStart 1000 (1/2) (1/4), Frame 1010, Frame 1020, PressStop 2000]
      (initial defaultStartSequenceConfig True True)) \<noteq> Recording \<and>
   length (frameTimestamps
     (run [PressStart 1000 (1/2) (1/4), Frame 1010, Frame 1020, PressStop 2000]
        (initial defaultStartSequenceConfig True True))) = 2"
  by (simp add: run_defs)

section \<open>The frame timestamps are elapsed times of the recording\<close>

lemma exec_finishTime:
  "finishTime (timingMarkers (snd (exec now prog tk s))) = finishTime (timingMarkers s)"
  by (induction now prog tk s rule: exec.induct)
     (simp_all add: handleSequenceComplete_def setStartTime_def split: option.splits)

lemma resume_finishTime:
  "finishTime (timingMarkers (resume k now s)) = finishTime (timingMarkers s)"
  using exec_finishTime [of now "todo (tasks s ! k)" "tasks s ! k" s]
  by (auto simp: resume_def split: prod.splits)

lemma mountOverlay_finishTime:
  "finishTime (timingMarkers (mountOverlay now r1 r2 s)) = finishTime (timingMarkers s)"
  using exec_finishTime [of now "startSequence (config s) r1 r2"
      "\<lparr>todo = [], phase = Ph_countdown, startTimeVar = None\<rparr>" s]
  by (auto simp: mountOverlay_def split: prod.splits)

lemma step_finish_implies_finished:
  "active_implies_recording s \<Longrightarrow> finish_implies_finished s \<Longrightarrow>
   finish_implies_finished (step e s)"
  by (cases e)
     (auto simp: active_implies_recording_def finish_implies_finished_def canStart_def
        canStop_def overlayEffect_def mountOverlay_frame mountOverlay_finishTime
        cameraViewEffect_frame handleStartSequence_def handleStopRecording_def
        handleSequenceCancelled_def frameProcessor_frame resume_frame resume_finishTime
        mountCameraView_frame)

lemma run_finish_implies_finished:
  "active_implies_recording s \<Longrightarrow> finish_implies_finished s \<Longrightarrow>
   finish_implies_finished (run evs s)"
  by (induction evs arbitrary: s)
     (simp_all add: step_finish_implies_finished step_active_implies_recording)

lemma step_back_frames:
  "frameTimestamps (step (BackToCamera now) s) = frameTimestamps s \<or>
   frameTimestamps (step (BackToCamera now) s) = []"
  by (simp add: mountCameraView_fresh)

lemma step_finished_frames:
  assumes "active_implies_recording s" "recordingState s = Finished"
  shows "frameTimestamps (step e s) = frameTimestamps s \<or> frameTimestamps (step e s) = []"
    and "\<not> is_back e \<Longrightarrow> frameTimestamps (step e s) = frameTimestamps s"
proof -
  have fin: "recordingState (step e s) \<noteq> Recording"
    using step_finished [OF assms, of e] by simp
  then show "frameTimestamps (step e s) = frameTimestamps s" if "\<not> is_back e"
    using that by (rule step_keeps_frames)
  then show "frameTimestamps (step e s) = frameTimestamps s \<or> frameTimestamps (step e s) = []"
    using step_back_frames [of _ s] by (cases e) simp_all
qed

lemma run_finished_frames:
  assumes "active_implies_recording s" "recordingState s = Finished"
  shows "frameTimestamps (run evs s) = frameTimestamps s \<or> frameTimestamps (run evs s) = []"
  using assms
proof (induction evs arbitrary: s)
  case Nil
  then show ?case by simp
next
  case (Cons e evs)
  have "frameTimestamps (run evs (step e s)) = frameTimestamps (step e s) \<or>
      frameTimestamps (run evs (step e s)) = []"
    using Cons.prems by (intro Cons.IH step_active_implies_recording step_finished)
  with step_finished_frames(1) [OF Cons.prems, of e] show ?case by auto
qed

lemma run_finished_frames_no_back:
  assumes "active_implies_recording s" "recordingState s = Finished" "\<not> list_ex is_back evs"
  shows "frameTimestamps (run evs s) = frameTimestamps s"
  using assms
proof (induction evs arbitrary: s)
  case Nil
  then show ?case by simp
next
  case (Cons e evs)
  from Cons.prems(3) have e: "\<not> is_back e" and rest: "\<not> list_ex is_back evs" by simp_all
  have "frameTimestamps (run evs (step e s)) = frameTimestamps (step e s)"
    using Cons.prems(1,2) rest by (intro Cons.IH step_active_implies_recording step_finished)
  with step_finished_frames(2) [OF Cons.prems(1,2) e] show ?case by simp
qed

lemma js_sub_bounds:
  assumes "0 \<le> t0" "t0 \<le> now" "is_double now"
  shows "0 \<le> js_sub now t0" and "js_sub now t0 \<le> now"
proof -
  show "0 \<le> js_sub now t0"
    unfolding js_sub_def using assms(2) by (intro round64_nonneg) simp
  have "round64 (now - t0) \<le> round64 now"
    using assms(1) by (intro round64_mono) simp
  with assms(3) show "js_sub now t0 \<le> now"
    by (simp add: js_sub_def is_double_def)
qed

lemma elapsed_ok_later:
  "elapsed_ok c s \<Longrightarrow> c \<le> c' \<Longrightarrow> elapsed_ok c' s"
  by (auto simp: elapsed_ok_def list_all_iff split: option.splits)

lemma elapsed_ok_cong:
  "recordingStartTime s' = recordingStartTime s \<Longrightarrow> frameTimestamps s' = frameTimestamps s \<Longrightarrow>
   elapsed_ok c s' = elapsed_ok c s"
  by (simp add: elapsed_ok_def)

lemma elapsed_ok_fresh:
  "0 \<le> c \<Longrightarrow> frameTimestamps s = [] \<Longrightarrow>
   recordingStartTime s = None \<or> recordingStartTime s = Some c \<Longrightarrow> elapsed_ok c s"
  by (auto simp: elapsed_ok_def)

lemma frameProcessor_elapsed_ok:
  assumes "elapsed_ok c s" "c \<le> now" "is_double now"
  shows "elapsed_ok now (frameProcessor now s)"
proof (cases "recordingState s = Recording \<and> (\<exists>t0. recordingStartTime s = Some t0 \<and> t0 \<noteq> 0)")
  case True
  then obtain t0 where t0: "recordingState s = Recording" "recordingStartTime s = Some t0" "t0 \<noteq> 0"
    by auto
  from assms(1) t0(2) have b: "0 \<le> t0" "t0 \<le> c" by (simp_all add: elapsed_ok_def)
  with assms(2) have "0 \<le> js_sub now t0" "js_sub now t0 \<le> now"
    using js_sub_bounds [of t0 now] assms(3) by simp_all
  moreover have "elapsed_ok now s" using assms(1,2) by (rule elapsed_ok_later)
  ultimately show ?thesis
    using t0 by (simp add: elapsed_ok_def frameProcessor_recording frameProcessor_frame)
next
  case False
  then have "frameProcessor now s = s"
    by (auto simp: frameProcessor_def isRecording_def split: option.splits)
  with assms(1,2) show ?thesis by (simp add: elapsed_ok_later)
qed

lemma step_elapsed_ok:
  assumes "elapsed_ok c s" "c \<le> clock_of e" "is_double (clock_of e)"
  shows "elapsed_ok (clock_of e) (step e s)"
proof -
  note later = elapsed_ok_later [OF assms(1,2)]
  have c0: "0 \<le> clock_of e" using assms(1,2) by (simp add: elapsed_ok_def)
  show ?thesis
  proof (cases e)
    case (PressStart now r1 r2)
    show ?thesis
    proof (cases "currentView s = CameraV \<and> canStart s")
      case True
      with step_start_fresh [of s now r1 r2] c0 show ?thesis
        unfolding PressStart by (intro elapsed_ok_fresh) simp_all
    next
      case False
      with later show ?thesis unfolding PressStart by auto
    qed
  next
    case (PressStop now)
    have "frameTimestamps (step e s) = frameTimestamps s"
      "recordingStartTime (step e s) = recordingStartTime s \<or> recordingStartTime (step e s) = None"
      unfolding PressStop
      by (simp_all add: cameraViewEffect_def recordingEffect_def isRecording_def
          stopRecording_def handleStopRecording_def canStop_def)
    with later show ?thesis by (auto simp: elapsed_ok_def)
  next
    case (PressCancel now)
    have "frameTimestamps (step e s) = frameTimestamps s"
      "recordingStartTime (step e s) = recordingStartTime s \<or> recordingStartTime (step e s) = None"
      unfolding PressCancel
      by (simp_all add: cameraViewEffect_def recordingEffect_def isRecording_def
          stopRecording_def handleSequenceCancelled_def)
    with later show ?thesis by (auto simp: elapsed_ok_def)
  next
    case (Frame now)
    with assms frameProcessor_elapsed_ok [of c s now] later show ?thesis
      by (cases "currentView s = CameraV") simp_all
  next
    case (Resume k now)
    with later show ?thesis by (simp add: elapsed_ok_def resume_frame)
  next
    case (OpenSettings now)
    with later show ?thesis by (simp add: elapsed_ok_def)
  next
    case (BackToCamera now)
    show ?thesis
    proof (cases "currentView s = SettingsV")
      case True
      with c0 show ?thesis
        unfolding BackToCamera by (intro elapsed_ok_fresh) (simp_all add: mountCameraView_fresh)
    next
      case False
      with later show ?thesis unfolding BackToCamera by simp
    qed
  qed
qed

lemma step_finish_bounds:
  assumes "active_implies_recording s" "finish_implies_finished s" "finish_bounds s"
    and "elapsed_ok c s" "c \<le> clock_of e"
  shows "finish_bounds (step e s)"
proof (cases "finishTime (timingMarkers s)")
  case (Some f)
  with assms(2) have fin: "recordingState s = Finished"
    by (simp add: finish_implies_finished_def)
  have ft: "finishTime (timingMarkers (step e s)) = Some f"
    using Some fin assms(1)
    by (cases e)
       (auto simp: active_implies_recording_def canStart_def canStop_def frameProcessor_frame
          resume_finishTime mountCameraView_frame)
  from step_finished_frames(1) [OF assms(1) fin, of e] assms(3) Some show ?thesis
    by (auto simp: finish_bounds_def ft)
next
  case None
  show ?thesis
  proof (cases e)
    case (PressStop now)
    show ?thesis
    proof (cases "currentView s = CameraV \<and> canStop s")
      case True
      then have "finishTime (timingMarkers (step e s)) = Some now"
        "frameTimestamps (step e s) = frameTimestamps s"
        unfolding PressStop using None
        by (simp_all add: cameraViewEffect_def recordingEffect_def isRecording_def
            stopRecording_def handleStopRecording_def canStop_def setFinishTime_def)
      moreover have "list_all (\<lambda>x. x \<le> now) (frameTimestamps s)"
        using assms(4,5) PressStop by (auto simp: elapsed_ok_def list_all_iff)
      ultimately show ?thesis by (simp add: finish_bounds_def)
    next
      case False
      with assms(3) show ?thesis unfolding PressStop by auto
    qed
  next
    case (PressStart now r1 r2)
    with None show ?thesis
      by (auto simp: finish_bounds_def overlayEffect_def mountOverlay_finishTime
          cameraViewEffect_frame handleStartSequence_def canStart_def)
  next
    case (PressCancel now)
    with None show ?thesis
      by (auto simp: finish_bounds_def cameraViewEffect_frame handleSequenceCancelled_def)
  next
    case (Frame now)
    with None show ?thesis by (auto simp: finish_bounds_def frameProcessor_frame)
  next
    case (Resume k now)
    with None show ?thesis by (simp add: finish_bounds_def resume_finishTime)
  next
    case (OpenSettings now)
    with None show ?thesis by (auto simp: finish_bounds_def)
  next
    case (BackToCamera now)
    with None show ?thesis by (auto simp: finish_bounds_def mountCameraView_frame)
  qed
qed

lemma run_elapsed_ok:
  assumes "active_implies_recording s" "finish_implies_finished s" "finish_bounds s"
    and "elapsed_ok c s" "sorted (c # map clock_of evs)" "list_all is_double (map clock_of evs)"
  shows "finish_bounds (run evs s) \<and> (\<exists>c'. elapsed_ok c' (run evs s))"
  using assms
proof (induction evs arbitrary: s c)
  case Nil
  then show ?case by auto
next
  case (Cons e evs)
  from Cons.prems(5) have le: "c \<le> clock_of e" and rest: "sorted (clock_of e # map clock_of evs)"
    by simp_all
  from Cons.prems(6) have d: "is_double (clock_of e)" "list_all is_double (map clock_of evs)"
    by simp_all
  have "finish_bounds (run evs (step e s)) \<and> (\<exists>c'. elapsed_ok c' (run evs (step e s)))"
    using Cons.prems(1-4) le rest d
    by (intro Cons.IH [of "step e s" "clock_of e"] step_active_implies_recording
        step_finish_implies_finished step_finish_bounds [of s c e] step_elapsed_ok)
  then show ?case by simp
qed

text \<open>
  C3, as the code has it. Every element of \<^verbatim>\<open>frameTimestamps\<close> is an elapsed time: a
  frame handed to the frame processor while the state is \<^verbatim>\<open>'recording'\<close> appends the
  clock minus \<^verbatim>\<open>recordingStartTime\<close>, and a frame at any other time changes nothing;
  \<^verbatim>\<open>recordingStartTime\<close> is the clock of the accepted start request (or of the later
  moment at which CameraView was mounted again during the recording), so frames are
  recorded from the start request on, before the start event. With clock readings that
  are doubles, not negative and not decreasing, every element lies between 0 and, once
  it is set, the finish time. Once the finish time is set no frame is recorded any more:
  the list stays as it is, or is emptied when CameraView is mounted again.
\<close>

theorem frameTimestamps_elapsed:
  assumes "sorted (0 # map clock_of evs)" and "list_all is_double (map clock_of evs)"
  shows "list_all (\<lambda>x. 0 \<le> x) (frameTimestamps (run evs (initial cfg cr cd))) \<and>
         (case finishTime (timingMarkers (run evs (initial cfg cr cd))) of
            None \<Rightarrow> True
          | Some f \<Rightarrow> list_all (\<lambda>x. x \<le> f) (frameTimestamps (run evs (initial cfg cr cd)))) \<and>
         (finishTime (timingMarkers (run evs (initial cfg cr cd))) \<noteq> None \<longrightarrow>
            (frameTimestamps (run (evs @ evs') (initial cfg cr cd)) =
               frameTimestamps (run evs (initial cfg cr cd)) \<or>
             frameTimestamps (run (evs @ evs') (initial cfg cr cd)) = []) \<and>
            (\<not> list_ex is_back evs' \<longrightarrow>
               frameTimestamps (run (evs @ evs') (initial cfg cr cd)) =
               frameTimestamps (run evs (initial cfg cr cd)))) \<and>
         (currentView s = CameraV \<and> canStart s \<longrightarrow>
            recordingStartTime (step (PressStart now r1 r2) s) = Some now) \<and>
         (currentView s = SettingsV \<and> recordingState s = Recording \<longrightarrow>
            recordingStartTime (step (BackToCamera now) s) = Some now) \<and>
         (recordingState s \<noteq> Recording \<longrightarrow> step (Frame now) s = s) \<and>
         (currentView s = CameraV \<and> recordingState s = Recording \<and>
          recordingStartTime s = Some t0 \<and> t0 \<noteq> 0 \<longrightarrow>
            frameTimestamps (step (Frame now) s) = frameTimestamps s @ [js_sub now t0])"
proof -
  let ?s = "run evs (initial cfg cr cd)"
  have a: "active_implies_recording (initial cfg cr cd)"
    by (simp add: active_implies_recording_def initial_def)
  have f: "finish_implies_finished (initial cfg cr cd)"
    by (simp add: finish_implies_finished_def initial_def)
  have b: "finish_bounds (initial cfg cr cd)"
    by (simp add: finish_bounds_def initial_def)
  have e: "elapsed_ok 0 (initial cfg cr cd)"
    by (simp add: elapsed_ok_def initial_def)
  from run_elapsed_ok [OF a f b e assms]
  have fb: "finish_bounds ?s" and "\<exists>c'. elapsed_ok c' ?s" by simp_all
  then have nonneg: "list_all (\<lambda>x. 0 \<le> x) (frameTimestamps ?s)"
    by (auto simp: elapsed_ok_def list_all_iff)
  have inv: "active_implies_recording ?s"
    using a by (rule run_active_implies_recording)
  have "finish_implies_finished ?s"
    using a f by (rule run_finish_implies_finished)
  then have fin: "recordingState ?s = Finished" if "finishTime (timingMarkers ?s) \<noteq> None"
    using that by (simp add: finish_implies_finished_def)
  have after: "frameTimestamps (run (evs @ evs') (initial cfg cr cd)) = frameTimestamps ?s \<or>
      frameTimestamps (run (evs @ evs') (initial cfg cr cd)) = []"
    if "finishTime (timingMarkers ?s) \<noteq> None"
    unfolding run_append using inv fin [OF that] by (rule run_finished_frames)
  have after': "frameTimestamps (run (evs @ evs') (initial cfg cr cd)) = frameTimestamps ?s"
    if "finishTime (timingMarkers ?s) \<noteq> None" "\<not> list_ex is_back evs'"
    unfolding run_append using inv fin [OF that(1)] that(2) by (rule run_finished_frames_no_back)
  have fr: "frameTimestamps (step (Frame now) s) = frameTimestamps s @ [js_sub now t0]"
    if "currentView s = CameraV" "recordingState s = Recording"
      "recordingStartTime s = Some t0" "t0 \<noteq> 0"
    using that by (simp add: frameProcessor_recording)
  have idle: "step (Frame now) s = s" if "recordingState s \<noteq> Recording"
    using that by (simp add: frameProcessor_not_recording)
  have remount: "recordingStartTime (step (BackToCamera now) s) = Some now"
    if "currentView s = SettingsV" "recordingState s = Recording"
    using that by (simp add: mountCameraView_fresh)
  have start: "recordingStartTime (step (PressStart now r1 r2) s) = Some now"
    if "currentView s = CameraV" "canStart s"
    using step_start_fresh [OF that] by simp
  from fb have fb': "case finishTime (timingMarkers ?s) of None \<Rightarrow> True
      | Some f \<Rightarrow> list_all (\<lambda>x. x \<le> f) (frameTimestamps ?s)"
    by (simp add: finish_bounds_def)
  show ?thesis
    using nonneg fb' after after' fr idle remount start by blast
qed

lemma is_double_numeral [simp]:
  assumes "numeral k < (9007199254740992::int)"
  shows "is_double (numeral k)"
proof -
  have "(of_int (numeral k) :: rat) < of_int 9007199254740992"
    using assms by (simp only: of_int_less_iff)
  then have "(numeral k :: rat) < 2 powi 53" by (simp add: power_int_def)
  also have "(2::rat) powi 53 \<le> 2 powi 1024" by (rule power_int_2_mono) simp
  finally have "\<bar>numeral k :: rat\<bar> < 2 powi 1024" by simp
  with assms show ?thesis by (simp add: is_double_def)
qed

theorem frameTimestamps_elapsed_witness:
  "sorted (0 # map clock_of [PressStart 1000 (1/2) (1/4), Frame 1010, Frame 1030, PressStop 2000]) \<and>
   list_all is_double
     (map clock_of [PressStart 1000 (1/2) (1/4), Frame 1010, Frame 1030, PressStop 2000]) \<and>
   frameTimestamps (run [PressStart 1000 (1/2) (1/4), Frame 1010, Frame 1030, PressStop 2000]
      (initial defaultStartSequenceConfig True True)) = [10, 30] \<and>
   finishTime (timingMarkers (run [PressStart 1000 (1/2) (1/4), Frame 1010, Frame 1030, PressStop 2000]
      (initial defaultStartSequenceConfig True True))) = Some 2000 \<and>
   frameTimestamps (run ([PressStart 1000 (1/2) (1/4), Frame 1010, Frame 1030, PressStop 2000] @
        [Frame 2010, PressStart 2020 (1/2) (1/4), Frame 2030])
      (initial defaultStartSequenceConfig True True)) = [10, 30]"
  using frameTimestamps_elapsed
    [of "[PressStart 1000 (1/2) (1/4), Frame 1010, Frame 1030, PressStop 2000]"
        defaultStartSequenceConfig True True
        "[Frame 2010, PressStart 2020 (1/2) (1/4), Frame 2030]"]
  by (simp add: run_defs)

text \<open>
  C3 as stated fails: a frame that arrives during the countdown is recorded, with the
  elapsed time 10, in a session whose start time is 13900 and whose finish time is 20000.
\<close>

theorem frames_before_start_time:
  "startTime (timingMarkers
     (run [PressStart 1000 (1/2) (1/4), Frame 1010, Resume 0 2000, Resume 0 3000,
        Resume 0 4000, Resume 0 4500, Resume 0 9500, Resume 0 10000, Resume 0 12000,
        Resume 0 12400, Resume 0 13900, Resume 0 14300, Resume 0 14800, PressStop 20000]
        (initial defaultStartSequenceConfig True True))) = Some 13900 \<and>
   finishTime (timingMarkers
     (run [PressStart 1000 (1/2) (1/4), Frame 1010, Resume 0 2000, Resume 0 3000,
        Resume 0 4000, Resume 0 4500, Resume 0 9500, Resume 0 10000, Resume 0 12000,
        Resume 0 12400, Resume 0 13900, Resume 0 14300, Resume 0 14800, PressStop 20000]
        (initial defaultStartSequenceConfig True True))) = Some 20000 \<and>
   frameTimestamps
     (run [PressStart 1000 (1/2) (1/4), Frame 1010, Resume 0 2000, Resume 0 3000,
        Resume 0 4000, Resume 0 4500, Resume 0 9500, Resume 0 10000, Resume 0 12000,
        Resume 0 12400, Resume 0 13900, Resume 0 14300, Resume 0 14800, PressStop 20000]
        (initial defaultStartSequenceConfig True True)) = [10] \<and>
   \<not> (13900 \<le> (10::rat))"
  by (simp add: run_defs)

section \<open>The measured frame rate\<close>

lemma slice_last_30_snoc:
  assumes "29 \<le> length ts"
  shows "slice_last 30 (ts @ [x]) ! 29 = x"
    and "slice_last 30 (ts @ [x]) ! 0 = ts ! (length ts - 29)"
proof -
  let ?d = "drop (length ts - 29) ts"
  have sl: "slice_last 30 (ts @ [x]) = ?d @ [x]"
    using assms by (simp add: slice_last_def)
  have len: "length ?d = 29" using assms by simp
  show "slice_last 30 (ts @ [x]) ! 29 = x"
    unfolding sl using nth_append_length [of ?d x] by (simp only: len)
  have "(?d @ [x]) ! 0 = ?d ! 0"
    using len by (simp add: nth_append)
  also have "\<dots> = ts ! (length ts - 29)"
    using assms by simp
  finally show "slice_last 30 (ts @ [x]) ! 0 = ts ! (length ts - 29)"
    unfolding sl .
qed

lemma in_clamp_band_js_div:
  "in_clamp_band (js_div a b) \<longleftrightarrow> b \<noteq> 0 \<and> 1 \<le> round64 (a / b) \<and> round64 (a / b) \<le> 240"
proof -
  have "(2::rat) powi 8 \<le> 2 powi 1024" by (rule power_int_2_mono) simp
  then have big: "(256::rat) \<le> 2 powi 1024" by (simp add: power_int_def)
  show ?thesis
    using big by (auto simp: in_clamp_band_def js_div_def Let_def)
qed

lemma js_div_29000_band:
  "29000 / 240 \<le> d \<Longrightarrow> d \<le> 29000 \<Longrightarrow> in_clamp_band (js_div 29000 d)"
  "0 < d \<Longrightarrow> d \<le> 29000 / 241 \<Longrightarrow> \<not> in_clamp_band (js_div 29000 d)"
  "58000 \<le> d \<Longrightarrow> \<not> in_clamp_band (js_div 29000 d)"
  "d < 0 \<Longrightarrow> \<not> in_clamp_band (js_div 29000 d)"
proof -
  show "in_clamp_band (js_div 29000 d)" if "29000 / 240 \<le> d" "d \<le> 29000"
  proof -
    from that have d: "0 < d" by simp
    then have "1 \<le> 29000 / d" "29000 / d \<le> 240"
      using that by (simp_all add: field_simps)
    then have "round64 1 \<le> round64 (29000 / d)" "round64 (29000 / d) \<le> round64 240"
      by (simp_all only: round64_mono)
    with d show ?thesis by (simp add: in_clamp_band_js_div)
  qed
  show "\<not> in_clamp_band (js_div 29000 d)" if "0 < d" "d \<le> 29000 / 241"
  proof -
    from that have "241 \<le> 29000 / d" by (simp add: field_simps)
    then have "round64 241 \<le> round64 (29000 / d)" by (rule round64_mono)
    then show ?thesis by (simp add: in_clamp_band_js_div)
  qed
  show "\<not> in_clamp_band (js_div 29000 d)" if "58000 \<le> d"
  proof -
    from that have "29000 / d \<le> 1 / 2" by (simp add: field_simps)
    then have "round64 (29000 / d) \<le> round64 (1 / 2)" by (rule round64_mono)
    then show ?thesis by (simp add: in_clamp_band_js_div round64_half)
  qed
  show "\<not> in_clamp_band (js_div 29000 d)" if "d < 0"
  proof -
    from that have "29000 / d \<le> 0" by (simp add: field_simps)
    then have "round64 (29000 / d) \<le> round64 0" by (rule round64_mono)
    then show ?thesis by (simp add: in_clamp_band_js_div)
  qed
qed

text \<open>
  C6, as the code has it. From the 30th recorded frame on, the frame rate the frame
  processor publishes is the quotient, in double arithmetic, of 29000 and the
  milliseconds \<open>d\<close> between the newest frame and the one 29 frames before it; no clamp
  is applied to it. It is \<^verbatim>\<open>Infinity\<close> when \<open>d = 0\<close>; it lies in [1, 240] whenever
  \<open>29000 / 240 \<le> d \<le> 29000\<close>, and outside whenever \<open>0 < d \<le> 29000 / 241\<close>,
  \<open>58000 \<le> d\<close> or \<open>d < 0\<close>.
\<close>

theorem measuredFps_not_clamped:
  assumes "currentView s = CameraV" "recordingState s = Recording"
    and "recordingStartTime s = Some t0" "t0 \<noteq> 0"
    and "29 \<le> length (frameTimestamps s)"
    and "d = js_sub (js_sub now t0) (frameTimestamps s ! (length (frameTimestamps s) - 29))"
  shows "actualFps (step (Frame now) s) = js_div 29000 d \<and>
         (d = 0 \<longrightarrow> actualFps (step (Frame now) s) = JsInfinity) \<and>
         (29000 / 240 \<le> d \<and> d \<le> 29000 \<longrightarrow> in_clamp_band (actualFps (step (Frame now) s))) \<and>
         (0 < d \<and> d \<le> 29000 / 241 \<longrightarrow> \<not> in_clamp_band (actualFps (step (Frame now) s))) \<and>
         (58000 \<le> d \<longrightarrow> \<not> in_clamp_band (actualFps (step (Frame now) s))) \<and>
         (d < 0 \<longrightarrow> \<not> in_clamp_band (actualFps (step (Frame now) s)))"
proof -
  have "actualFps (step (Frame now) s) = js_div 29000 d"
    using assms
    by (simp add: frameProcessor_def isRecording_def Let_def measuredFps_def slice_last_30_snoc)
  then show ?thesis
    using js_div_29000_band [of d] by (simp add: js_div_def)
qed

theorem measuredFps_not_clamped_witness:
  "recordingState (run (PressStart 1000 (1/2) (1/4) # replicate 29 (Frame 1001))
      (initial defaultStartSequenceConfig True True)) = Recording \<and>
   recordingStartTime (run (PressStart 1000 (1/2) (1/4) # replicate 29 (Frame 1001))
      (initial defaultStartSequenceConfig True True)) = Some 1000 \<and>
   length (frameTimestamps (run (PressStart 1000 (1/2) (1/4) # replicate 29 (Frame 1001))
      (initial defaultStartSequenceConfig True True))) = 29 \<and>
   actualFps (step (Frame 1291) (run (PressStart 1000 (1/2) (1/4) # replicate 29 (Frame 1001))
      (initial defaultStartSequenceConfig True True))) = JsNum 100 \<and>
   in_clamp_band (JsNum 100)"
  using measuredFps_not_clamped
    [of "run (PressStart 1000 (1/2) (1/4) # replicate 29 (Frame 1001))
      (initial defaultStartSequenceConfig True True)" 1000 290 1291]
  by (simp add: run_defs in_clamp_band_def eval_nat_numeral)

text \<open>
  C6 as stated fails: thirty frames one millisecond apart give the frame rate 1000, and
  thirty frames at one instant give \<^verbatim>\<open>Infinity\<close>.
\<close>

theorem measuredFps_out_of_band:
  "actualFps (run [PressStart 1000 (1/2) (1/4),
     Frame 1001, Frame 1002, Frame 1003, Frame 1004, Frame 1005, Frame 1006, Frame 1007,
     Frame 1008, Frame 1009, Frame 1010, Frame 1011, Frame 1012, Frame 1013, Frame 1014,
     Frame 1015, Frame 1016, Frame 1017, Frame 1018, Frame 1019, Frame 1020, Frame 1021,
     Frame 1022, Frame 1023, Frame 1024, Frame 1025, Frame 1026, Frame 1027, Frame 1028,
     Frame 1029, Frame 1030]
     (initial defaultStartSequenceConfig True True)) = JsNum 1000 \<and>
   \<not> in_clamp_band (JsNum 1000) \<and>
   actualFps (run [PressStart 1000 (1/2) (1/4),
     Frame 1001, Frame 1001, Frame 1001, Frame 1001, Frame 1001, Frame 1001, Frame 1001,
     Frame 1001, Frame 1001, Frame 1001, Frame 1001, Frame 1001, Frame 1001, Frame 1001,
     Frame 1001, Frame 1001, Frame 1001, Frame 1001, Frame 1001, Frame 1001, Frame 1001,
     Frame 1001, Frame 1001, Frame 1001, Frame 1001, Frame 1001, Frame 1001, Frame 1001,
     Frame 1001, Frame 1001]
     (initial defaultStartSequenceConfig True True)) = JsInfinity"
  by (simp add: run_defs in_clamp_band_def)

text \<open>
  At the edge of the band the rounding decides: for the double nearest to
  120.83333333333333, which is below 29000 / 240, the quotient rounds to 240.
\<close>

lemma measuredFps_rounds_at_band_edge:
  "round64 (12083333333333333 / 100000000000000) < 29000 / 240 \<and>
   js_div 29000 (round64 (12083333333333333 / 100000000000000)) = JsNum 240"
  by code_simp

section \<open>The start handler\<close>

lemma start_handler_todo:
  "dropWhile (\<lambda>i. i \<noteq> SetPhase Ph_start) (startSequence cfg r1 r2) =
     [SetPhase Ph_start, SetPhaseText ''GO!'', ReadStartTime] @ cue_if cfg Cue_start_beep @
     [AnimateScale, SetTimeout 500, SetPhase Ph_completed, OnComplete]"
  by (simp add: startSequence_def cue_if_def numeral_3_eq_3)

text \<open>
  C1, as the code has it. When the wait of the phase \<^verbatim>\<open>'set'\<close> is over, the sequence
  (1) reads the clock, (2) if audio is enabled issues the beep and waits for it, and
  (3) after a timer of 500 ms passes the value read in (1) to \<^verbatim>\<open>onComplete\<close>, which
  writes it to the start time. It sends no command to the camera.
\<close>

theorem start_handler_order:
  assumes "k < length (tasks s)"
    and "todo (tasks s ! k) =
           dropWhile (\<lambda>i. i \<noteq> SetPhase Ph_start) (startSequence cfg r1 r2)"
  shows "(audioEnabled cfg \<longrightarrow>
            log (run [Resume k t1] s) = log s @ [PerfNow t1, AudioPlay Cue_start_beep] \<and>
            timingMarkers (run [Resume k t1] s) = timingMarkers s \<and>
            log (run [Resume k t1, Resume k t2] s) =
              log s @ [PerfNow t1, AudioPlay Cue_start_beep] \<and>
            timingMarkers (run [Resume k t1, Resume k t2] s) = timingMarkers s \<and>
            log (run [Resume k t1, Resume k t2, Resume k t3] s) =
              log s @ [PerfNow t1, AudioPlay Cue_start_beep, MarkStart t1] \<and>
            timingMarkers (run [Resume k t1, Resume k t2, Resume k t3] s) =
              setStartTime t1 (timingMarkers s)) \<and>
         (\<not> audioEnabled cfg \<longrightarrow>
            log (run [Resume k t1] s) = log s @ [PerfNow t1] \<and>
            timingMarkers (run [Resume k t1] s) = timingMarkers s \<and>
            log (run [Resume k t1, Resume k t2] s) = log s @ [PerfNow t1, MarkStart t1] \<and>
            timingMarkers (run [Resume k t1, Resume k t2] s) =
              setStartTime t1 (timingMarkers s))"
  using assms
  by (simp add: resume_def start_handler_todo cue_if_def handleSequenceComplete_def)

theorem start_handler_order_witness:
  "length (tasks (run [PressStart 1000 (1/2) (1/4), Resume 0 2000, Resume 0 3000, Resume 0 4000,
        Resume 0 4500, Resume 0 9500, Resume 0 10000, Resume 0 12000, Resume 0 12400]
       (initial defaultStartSequenceConfig True True))) = 1 \<and>
   phase (tasks (run [PressStart 1000 (1/2) (1/4), Resume 0 2000, Resume 0 3000, Resume 0 4000,
        Resume 0 4500, Resume 0 9500, Resume 0 10000, Resume 0 12000, Resume 0 12400]
       (initial defaultStartSequenceConfig True True)) ! 0) = Ph_set \<and>
   log (run [PressStart 1000 (1/2) (1/4), Resume 0 2000, Resume 0 3000, Resume 0 4000,
        Resume 0 4500, Resume 0 9500, Resume 0 10000, Resume 0 12000, Resume 0 12400]
       (initial defaultStartSequenceConfig True True)) =
     [PerfNow 1000, CamStartRecording, AudioPlay Cue_go_to_start, AudioPlay Cue_in_position,
      AudioPlay Cue_set] \<and>
   log (run [Resume 0 13900, Resume 0 14300, Resume 0 14800]
     (run [PressStart 1000 (1/2) (1/4), Resume 0 2000, Resume 0 3000, Resume 0 4000,
        Resume 0 4500, Resume 0 9500, Resume 0 10000, Resume 0 12000, Resume 0 12400]
       (initial defaultStartSequenceConfig True True))) =
     [PerfNow 1000, CamStartRecording, AudioPlay Cue_go_to_start, AudioPlay Cue_in_position,
      AudioPlay Cue_set, PerfNow 13900, AudioPlay Cue_start_beep, MarkStart 13900] \<and>
   startTime (timingMarkers (run [Resume 0 13900, Resume 0 14300, Resume 0 14800]
     (run [PressStart 1000 (1/2) (1/4), Resume 0 2000, Resume 0 3000, Resume 0 4000,
        Resume 0 4500, Resume 0 9500, Resume 0 10000, Resume 0 12000, Resume 0 12400]
       (initial defaultStartSequenceConfig True True)))) = Some 13900"
  using start_handler_order
    [of 0 "run [PressStart 1000 (1/2) (1/4), Resume 0 2000, Resume 0 3000, Resume 0 4000,
        Resume 0 4500, Resume 0 9500, Resume 0 10000, Resume 0 12000, Resume 0 12400]
       (initial defaultStartSequenceConfig True True)"
       defaultStartSequenceConfig "1/2" "1/4" 13900 14300 14800]
  by (simp add: run_defs)

text \<open>
  C1 as stated fails. In a session driven from the start request to the end of the
  sequence, the command to the camera is the first effect, issued before the countdown
  and its cues; at the start the clock is read before the beep is issued, and the start
  time is written after the beep.
\<close>

theorem begin_before_countdown_clock_before_beep:
  "log (run [PressStart 1000 (1/2) (1/4), Resume 0 2000, Resume 0 3000, Resume 0 4000,
        Resume 0 4500, Resume 0 9500, Resume 0 10000, Resume 0 12000, Resume 0 12400,
        Resume 0 13900, Resume 0 14300, Resume 0 14800]
       (initial defaultStartSequenceConfig True True)) =
     [PerfNow 1000, CamStartRecording, AudioPlay Cue_go_to_start, AudioPlay Cue_in_position,
      AudioPlay Cue_set, PerfNow 13900, AudioPlay Cue_start_beep, MarkStart 13900]"
  by (simp add: run_defs)

section \<open>What a start request does before the countdown\<close>

lemma exec_countdown_first:
  "exec now (startSequence cfg r1 r2) tk s =
     (tk\<lparr>todo := drop 3 (startSequence cfg r1 r2)\<rparr>, s)"
  by (simp add: startSequence_def numeral_3_eq_3)

text \<open>
  C2, as the code has it. A start request accepted in the camera view, where the start
  button is, reads the clock and, with the camera available, issues
  \<^verbatim>\<open>startRecording\<close> at once, without waiting for it; the sequence it mounts is
  then suspended in the first second of the countdown, before any audio cue.
  No frame rate is measured before the countdown: the published rate is reset to 0, and
  a frame changes it only when it is at least the 30th of the recording.
\<close>

theorem start_request_before_countdown:
  assumes "currentView s = CameraV" and "canStart s"
  shows "log (step (PressStart now r1 r2) s) =
           log s @ PerfNow now #
             (if cameraRef s \<and> cameraDevice s then [CamStartRecording] else []) \<and>
         tasks (step (PressStart now r1 r2) s) =
           tasks s @ [\<lparr>todo = drop 3 (startSequence (config s) r1 r2),
                       phase = Ph_countdown, startTimeVar = None\<rparr>] \<and>
         actualFps (step (PressStart now r1 r2) s) = JsNum 0 \<and>
         frameTimestamps (step (PressStart now r1 r2) s) = [] \<and>
         (length (frameTimestamps x) < 29 \<longrightarrow>
            actualFps (step (Frame now') x) = actualFps x)"
proof -
  have fr: "actualFps (step (Frame now') x) = actualFps x"
    if "length (frameTimestamps x) < 29"
    using that by (simp add: frameProcessor_def Let_def split: option.splits)
  show ?thesis
    using assms fr
    by (simp add: canStart_def overlayEffect_def handleStartSequence_def cameraViewEffect_def
        isRecording_def recordingEffect_def startRecording_def mountOverlay_def
        exec_countdown_first)
qed

theorem start_request_before_countdown_witness:
  "currentView (initial defaultStartSequenceConfig True True) = CameraV \<and>
   canStart (initial defaultStartSequenceConfig True True) \<and>
   log (step (PressStart 1000 (1/2) (1/4)) (initial defaultStartSequenceConfig True True)) =
     [PerfNow 1000, CamStartRecording] \<and>
   actualFps (step (PressStart 1000 (1/2) (1/4))
     (initial defaultStartSequenceConfig True True)) = JsNum 0"
  using start_request_before_countdown
    [of "initial defaultStartSequenceConfig True True" 1000 "1/2" "1/4"]
  by (simp add: initial_def canStart_def)

text \<open>
  C2 as stated fails: the first cue of the countdown is played when no frame has been
  seen and no frame rate has been measured.
\<close>

theorem first_cue_without_measurement:
  "log (run [PressStart 1000 (1/2) (1/4), Resume 0 2000, Resume 0 3000, Resume 0 4000]
       (initial defaultStartSequenceConfig True True)) =
     [PerfNow 1000, CamStartRecording, AudioPlay Cue_go_to_start] \<and>
   frameCount (run [PressStart 1000 (1/2) (1/4), Resume 0 2000, Resume 0 3000, Resume 0 4000]
       (initial defaultStartSequenceConfig True True)) = 0 \<and>
   actualFps (run [PressStart 1000 (1/2) (1/4), Resume 0 2000, Resume 0 3000, Resume 0 4000]
       (initial defaultStartSequenceConfig True True)) = JsNum 0"
  by (simp add: run_defs)

section \<open>The waits of the sequence and the recording command\<close>

lemma exec_count_cam:
  "count_list (log (snd (exec now prog tk s))) CamStartRecording =
   count_list (log s) CamStartRecording"
  by (induction now prog tk s rule: exec.induct)
     (simp_all add: handleSequenceComplete_def split: option.splits)

lemma resume_count_cam:
  "count_list (log (resume k now s)) CamStartRecording = count_list (log s) CamStartRecording"
  using exec_count_cam [of now "todo (tasks s ! k)" "tasks s ! k" s]
  by (auto simp: resume_def split: prod.splits)

lemma mountOverlay_count_cam:
  "count_list (log (mountOverlay now r1 r2 s)) CamStartRecording =
   count_list (log s) CamStartRecording"
  using exec_count_cam [of now "startSequence (config s) r1 r2"
      "\<lparr>todo = [], phase = Ph_countdown, startTimeVar = None\<rparr>" s]
  by (auto simp: mountOverlay_def split: prod.splits)

lemma run_resumes_count_cam:
  "count_list (log (run (map (Resume k) ts) s)) CamStartRecording =
   count_list (log s) CamStartRecording"
  by (induction ts arbitrary: s) (simp_all add: resume_count_cam)

lemma wait_before_start_startSequence:
  "wait_before_start (startSequence cfg r1 r2) =
     3000 + goToStartDuration cfg * 1000 +
     randomDelay (inPositionMin cfg) (inPositionMax cfg) r1 +
     randomDelay (setMin cfg) (setMax cfg) r2"
  by (simp add: startSequence_def cue_if_def numeral_3_eq_3)

text \<open>
  C8, as the code has it. The delays a sequence awaits before the phase \<^verbatim>\<open>'start'\<close> add up
  to 3000 ms of initial countdown plus the three phase durations: 3 + 5 + 2.0 + 1.5 =
  11.5 seconds for the configuration and the random values of the scenario (the awaited
  audio cues come on top). With the camera available, one start request followed by any
  number of resumptions of the sequence issues exactly one \<^verbatim>\<open>startRecording\<close> command.
\<close>

theorem sequence_wait_and_single_begin:
  "wait_before_start (startSequence cfg r1 r2) =
     3000 + goToStartDuration cfg * 1000 +
     randomDelay (inPositionMin cfg) (inPositionMax cfg) r1 +
     randomDelay (setMin cfg) (setMax cfg) r2 \<and>
   count_list
     (log (run (PressStart t0 r1 r2 # map (Resume 0) ts) (initial cfg True True)))
     CamStartRecording = 1"
proof -
  have "count_list (log (step (PressStart t0 r1 r2) (initial cfg True True)))
      CamStartRecording = 1"
    by (simp add: canStart_def overlayEffect_def handleStartSequence_def cameraViewEffect_def
        mountOverlay_count_cam isRecording_def recordingEffect_def startRecording_def
        initial_def)
  then show ?thesis
    by (simp only: run.simps run_resumes_count_cam wait_before_start_startSequence simp_thms)
qed

theorem sequence_wait_and_single_begin_witness:
  "wait_before_start (startSequence defaultStartSequenceConfig (1/2) (1/4)) = 11500 \<and>
   count_list
     (log (run (PressStart 1000 (1/2) (1/4) #
                map (Resume 0) [2000, 3000, 4000, 4500, 9500, 10000, 12000, 12400, 13900,
                  14300, 14800])
             (initial defaultStartSequenceConfig True True)))
     CamStartRecording = 1"
  using sequence_wait_and_single_begin
    [of defaultStartSequenceConfig "1/2" "1/4" 1000
        "[2000, 3000, 4000, 4500, 9500, 10000, 12000, 12400, 13900, 14300, 14800]"]
  by (simp add: defaultStartSequenceConfig_def randomDelay_def)

text \<open>
  C8 as stated fails: with the random values that make the two random waits 2.0 and 1.5
  seconds, the wait before the start is 3000 ms more than the 8500 ms of the claim.
\<close>

theorem sequence_wait_is_not_8500:
  "randomDelay (inPositionMin defaultStartSequenceConfig)
     (inPositionMax defaultStartSequenceConfig) (1/2) = 2000 \<and>
   randomDelay (setMin defaultStartSequenceConfig) (setMax defaultStartSequenceConfig) (1/4) =
     1500 \<and>
   wait_before_start (startSequence defaultStartSequenceConfig (1/2) (1/4)) - 8500 = 3000"
  by (simp add: defaultStartSequenceConfig_def randomDelay_def startSequence_def cue_if_def
      numeral_3_eq_3)

section \<open>A cancel does not stop the sequence\<close>

text \<open>
  C5 fails on the code. A start request, a cancel while the sequence is in the phase
  \<^verbatim>\<open>'in_position'\<close>, and then the timers of the sequence, which nothing cleared: the
  state is \<^verbatim>\<open>'idle'\<close> after the cancel and the start time is unset, the cues
  \<^verbatim>\<open>'set'\<close> and \<^verbatim>\<open>'start_beep'\<close> are played all the same, and \<^verbatim>\<open>onComplete\<close> writes
  the start time.
\<close>

theorem cancel_then_start_time_set:
  "phase (tasks (run [PressStart 1000 (1/2) (1/4), Resume 0 2000, Resume 0 3000,
       Resume 0 4000, Resume 0 4500, Resume 0 9500]
      (initial defaultStartSequenceConfig True True)) ! 0) = Ph_in_position \<and>
   recordingState (run [PressStart 1000 (1/2) (1/4), Resume 0 2000, Resume 0 3000,
       Resume 0 4000, Resume 0 4500, Resume 0 9500, PressCancel 9600]
      (initial defaultStartSequenceConfig True True)) = Idle \<and>
   startTime (timingMarkers (run [PressStart 1000 (1/2) (1/4), Resume 0 2000, Resume 0 3000,
       Resume 0 4000, Resume 0 4500, Resume 0 9500, PressCancel 9600]
      (initial defaultStartSequenceConfig True True))) = None \<and>
   startTime (timingMarkers (run [PressStart 1000 (1/2) (1/4), Resume 0 2000, Resume 0 3000,
       Resume 0 4000, Resume 0 4500, Resume 0 9500, PressCancel 9600,
       Resume 0 10000, Resume 0 12000, Resume 0 12400, Resume 0 13900, Resume 0 14300,
       Resume 0 14800]
      (initial defaultStartSequenceConfig True True))) = Some 13900 \<and>
   log (run [PressStart 1000 (1/2) (1/4), Resume 0 2000, Resume 0 3000,
       Resume 0 4000, Resume 0 4500, Resume 0 9500, PressCancel 9600,
       Resume 0 10000, Resume 0 12000, Resume 0 12400, Resume 0 13900, Resume 0 14300,
       Resume 0 14800]
      (initial defaultStartSequenceConfig True True)) =
     [PerfNow 1000, CamStartRecording, AudioPlay Cue_go_to_start, AudioPlay Cue_in_position,
      CamStopRecording, AudioPlay Cue_set, PerfNow 13900, AudioPlay Cue_start_beep,
      MarkStart 13900]"
  by (simp add: run_defs)

section \<open>The start happens once\<close>
























end
